theory Spec2Isabelle
  imports Main "HOL-Library.Sublist" "HOL-Library.AList" "HOL-Library.Multiset"
    "HOL-Library.Char_ord" "HOL-Library.List_Lexorder" "HOL-Library.Product_Lexorder"
begin

section \<open>JavaScript string helpers\<close>

text \<open>
  Strings are character lists. \<open>startsWith\<close>, \<open>includes\<close>, \<open>split\<close>,
  \<open>join\<close> and \<open>replace\<close> (with a string pattern: first occurrence only) are the
  methods of \<open>String.prototype\<close> and \<open>Array.prototype\<close> that the source calls.
\<close>

definition startsWith :: "string \<Rightarrow> string \<Rightarrow> bool" where
  "startsWith s p = prefix p s"

fun str_includes :: "string \<Rightarrow> string \<Rightarrow> bool" where
  "str_includes [] p = (p = [])"
| "str_includes (c # cs) p = (prefix p (c # cs) \<or> str_includes cs p)"

fun str_replace :: "string \<Rightarrow> string \<Rightarrow> string \<Rightarrow> string" where
  "str_replace [] p r = (if p = [] then r else [])"
| "str_replace (c # cs) p r =
     (if prefix p (c # cs) then r @ drop (length p) (c # cs) else c # str_replace cs p r)"

fun str_split :: "char \<Rightarrow> string \<Rightarrow> string list" where
  "str_split sep [] = [[]]"
| "str_split sep (c # cs) =
     (if c = sep then [] # str_split sep cs
      else (case str_split sep cs of [] \<Rightarrow> [[c]] | w # ws \<Rightarrow> (c # w) # ws))"

fun join :: "string \<Rightarrow> string list \<Rightarrow> string" where
  "join sep [] = []"
| "join sep [x] = x"
| "join sep (x # y # ys) = x @ sep @ join sep (y # ys)"

text \<open>Truthiness of an optional boolean flag.\<close>

fun flag :: "bool option \<Rightarrow> bool" where
  "flag None = False"
| "flag (Some b) = b"

section \<open>Install-command module (local/remote execute tokens)\<close>

record PackageManagerBase =
  pm_id :: string
  label :: string
  action :: string
  icon :: string

record PackageManager = PackageManagerBase +
  executeLocal :: string
  executeRemote :: string
  create :: string

definition packageManagers :: "PackageManager list" where
  "packageManagers =
   [ \<lparr>pm_id = ''npm'', label = ''npm'', action = ''install'', icon = ''i-simple-icons:npm'',
       executeLocal = ''npx'', executeRemote = ''npx'', create = ''npm create''\<rparr>,
     \<lparr>pm_id = ''pnpm'', label = ''pnpm'', action = ''add'', icon = ''i-simple-icons:pnpm'',
       executeLocal = ''pnpm exec'', executeRemote = ''pnpm dlx'', create = ''pnpm create''\<rparr>,
     \<lparr>pm_id = ''yarn'', label = ''yarn'', action = ''add'', icon = ''i-simple-icons:yarn'',
       executeLocal = ''npx'', executeRemote = ''yarn dlx'', create = ''yarn create''\<rparr>,
     \<lparr>pm_id = ''bun'', label = ''bun'', action = ''add'', icon = ''i-simple-icons:bun'',
       executeLocal = ''bunx'', executeRemote = ''bunx'', create = ''bun create''\<rparr>,
     \<lparr>pm_id = ''deno'', label = ''deno'', action = ''add'', icon = ''i-simple-icons:deno'',
       executeLocal = ''deno run'', executeRemote = ''deno run'', create = ''deno run''\<rparr>,
     \<lparr>pm_id = ''vlt'', label = ''vlt'', action = ''install'', icon = ''i-custom-vlt'',
       executeLocal = ''vlx'', executeRemote = ''vlx'', create = ''vlx''\<rparr> ]"

text \<open>
  \<open>JsrPackageInfo\<close> is declared outside the given sources; its fields are the ones the
  tests construct: \<open>{exists, scope?, name?, url?, latestVersion?}\<close>.
\<close>

record JsrPackageInfo =
  jsr_exists :: bool
  jsr_scope :: "string option"
  jsr_name :: "string option"
  jsr_url :: "string option"
  jsr_latestVersion :: "string option"

record InstallCommandOptions =
  packageName :: string
  packageManager :: string
  version :: "string option"
  jsrInfo :: "JsrPackageInfo option"

record ExecuteCommandOptions = InstallCommandOptions +
  isBinaryOnly :: "bool option"
  isCreatePackage :: "bool option"

text \<open>
  The guarded branch \<open>if (jsrInfo?.exists && jsrInfo.scope && jsrInfo.name) return
  `jsr:@${jsrInfo.scope}/${jsrInfo.name}`\<close>, shared verbatim by both modules: the
  specifier when the guard holds, \<open>None\<close> when control falls through.
\<close>

definition jsrSpecifier :: "JsrPackageInfo option \<Rightarrow> string option" where
  "jsrSpecifier info =
     (case info of
        None \<Rightarrow> None
      | Some j \<Rightarrow>
          (case (jsr_scope j, jsr_name j) of
             (Some s, Some n) \<Rightarrow>
               if jsr_exists j \<and> s \<noteq> [] \<and> n \<noteq> [] then Some (''jsr:@'' @ s @ ''/'' @ n) else None
           | _ \<Rightarrow> None))"

definition getPackageSpecifier :: "'a InstallCommandOptions_scheme \<Rightarrow> string" where
  "getPackageSpecifier options =
     (if packageManager options = ''deno'' then
        (case jsrSpecifier (jsrInfo options) of
           Some jsr \<Rightarrow> jsr
         | None \<Rightarrow> ''npm:'' @ packageName options)
      else packageName options)"

definition getInstallCommandParts :: "'a InstallCommandOptions_scheme \<Rightarrow> string list" where
  "getInstallCommandParts options =
     (case find (\<lambda>p. pm_id p = packageManager options) packageManagers of
        None \<Rightarrow> []
      | Some pm \<Rightarrow>
          (let spec = getPackageSpecifier options;
               ver = (case version options of
                        Some v \<Rightarrow> if v \<noteq> [] then ''@'' @ v else []
                      | None \<Rightarrow> [])
           in [label pm, action pm, spec @ ver]))"

definition getInstallCommand :: "'a InstallCommandOptions_scheme \<Rightarrow> string" where
  "getInstallCommand options = join '' '' (getInstallCommandParts options)"

text \<open>
  \<open>getCreateShortName\<close> is imported from \<open>#shared/utils/package-analysis\<close>, which is
  not among the sources; it is a parameter of the model.
\<close>

definition getExecuteCommandParts ::
  "(string \<Rightarrow> string) \<Rightarrow> ExecuteCommandOptions \<Rightarrow> string list" where
  "getExecuteCommandParts getCreateShortName options =
     (case find (\<lambda>p. pm_id p = packageManager options) packageManagers of
        None \<Rightarrow> []
      | Some pm \<Rightarrow>
          if flag (isCreatePackage options)
             \<and> getCreateShortName (packageName options) \<noteq> packageName options
          then str_split (CHR '' '') (create pm) @ [getCreateShortName (packageName options)]
          else (let executeCmd = (if flag (isBinaryOnly options) then executeRemote pm else executeLocal pm)
                in str_split (CHR '' '') executeCmd @ [getPackageSpecifier options]))"

definition getExecuteCommand :: "(string \<Rightarrow> string) \<Rightarrow> ExecuteCommandOptions \<Rightarrow> string" where
  "getExecuteCommand getCreateShortName options =
     join '' '' (getExecuteCommandParts getCreateShortName options)"

section \<open>Install-command module (unified execute token)\<close>

record PackageManagerU = PackageManagerBase +
  execute :: string

definition packageManagersU :: "PackageManagerU list" where
  "packageManagersU =
   [ \<lparr>pm_id = ''npm'', label = ''npm'', action = ''install'', icon = ''i-simple-icons:npm'',
       execute = ''npx''\<rparr>,
     \<lparr>pm_id = ''pnpm'', label = ''pnpm'', action = ''add'', icon = ''i-simple-icons:pnpm'',
       execute = ''pnpm dlx''\<rparr>,
     \<lparr>pm_id = ''yarn'', label = ''yarn'', action = ''add'', icon = ''i-simple-icons:yarn'',
       execute = ''yarn dlx''\<rparr>,
     \<lparr>pm_id = ''bun'', label = ''bun'', action = ''add'', icon = ''i-simple-icons:bun'',
       execute = ''bunx''\<rparr>,
     \<lparr>pm_id = ''deno'', label = ''deno'', action = ''add'', icon = ''i-simple-icons:deno'',
       execute = ''deno run''\<rparr>,
     \<lparr>pm_id = ''vlt'', label = ''vlt'', action = ''install'', icon = ''i-custom-vlt'',
       execute = ''vlt x''\<rparr> ]"

definition getPackageSpecifierU :: "'a InstallCommandOptions_scheme \<Rightarrow> string" where
  "getPackageSpecifierU options =
     (if packageManager options = ''deno'' then
        (case jsrSpecifier (jsrInfo options) of
           Some jsr \<Rightarrow> jsr
         | None \<Rightarrow> ''npm:'' @ packageName options)
      else packageName options)"

definition getInstallCommandPartsU :: "'a InstallCommandOptions_scheme \<Rightarrow> string list" where
  "getInstallCommandPartsU options =
     (case find (\<lambda>p. pm_id p = packageManager options) packageManagersU of
        None \<Rightarrow> []
      | Some pm \<Rightarrow>
          (let spec = getPackageSpecifierU options;
               ver = (case version options of
                        Some v \<Rightarrow> if v \<noteq> [] then ''@'' @ v else []
                      | None \<Rightarrow> [])
           in [label pm, action pm, spec @ ver]))"

definition getInstallCommandU :: "'a InstallCommandOptions_scheme \<Rightarrow> string" where
  "getInstallCommandU options = join '' '' (getInstallCommandPartsU options)"

definition getExecuteCommandPartsU :: "'a InstallCommandOptions_scheme \<Rightarrow> string list" where
  "getExecuteCommandPartsU options =
     (case find (\<lambda>p. pm_id p = packageManager options) packageManagersU of
        None \<Rightarrow> []
      | Some pm \<Rightarrow> [execute pm, getPackageSpecifierU options])"

definition getExecuteCommandU :: "'a InstallCommandOptions_scheme \<Rightarrow> string" where
  "getExecuteCommandU options = join '' '' (getExecuteCommandPartsU options)"

section \<open>README rendering: URL resolution and the renderer overrides\<close>

text \<open>A JavaScript number (a small non-negative integer here) in a template literal.\<close>

definition digit :: "nat \<Rightarrow> char" where
  "digit n = ''0123456789'' ! n"

function showNat :: "nat \<Rightarrow> string" where
  "showNat n = (if n < 10 then [digit n] else showNat (n div 10) @ [digit (n mod 10)])"
  by pat_completeness auto
termination
  by (relation "measure (\<lambda>n. n)") auto

declare showNat.simps [simp del]

definition resolveUrl :: "string \<Rightarrow> string \<Rightarrow> string" where
  "resolveUrl url pkg =
     (if url = [] then url
      else if startsWith url ''#'' then url
      else if startsWith url ''http://'' \<or> startsWith url ''https://'' \<or> startsWith url ''//''
      then url
      else ''https://cdn.jsdelivr.net/npm/'' @ pkg @ ''/''
             @ (if startsWith url ''./'' then drop 2 url else url))"

definition resolveImageUrl :: "string \<Rightarrow> string \<Rightarrow> string" where
  "resolveImageUrl url pkg =
     (let resolved = resolveUrl url pkg
      in if str_includes resolved ''github.com'' \<and> str_includes resolved ''/blob/''
         then str_replace resolved ''/blob/'' ''/raw/''
         else resolved)"

text \<open>
  \<open>renderer.heading\<close>: \<open>text\<close> is the result of \<open>this.parser.parseInline(tokens)\<close>
  (the Markdown library's inline rendering), \<open>depth\<close> the heading's original level.
\<close>

definition heading :: "nat \<Rightarrow> string \<Rightarrow> string" where
  \<open>heading depth inner =
     (let semanticLevel = min (depth + 2) 6
      in ''<h'' @ showNat semanticLevel @ '' data-level="'' @ showNat depth @ ''">'' @ inner
         @ ''</h'' @ showNat semanticLevel @ ''>'' @ [CHR 0x0A])\<close>

text \<open>\<open>renderer.image\<close>; \<open>title\<close> may be \<open>null\<close>.\<close>

definition image :: "string \<Rightarrow> string \<Rightarrow> string option \<Rightarrow> string \<Rightarrow> string" where
  \<open>image pkg href title alt =
     (let resolvedHref = resolveImageUrl href pkg;
          titleAttr = (case title of Some t \<Rightarrow> if t \<noteq> [] then '' title="'' @ t @ ''"'' else [] | None \<Rightarrow> []);
          altAttr = (if alt \<noteq> [] then '' alt="'' @ alt @ ''"'' else [])
      in ''<img src="'' @ resolvedHref @ ''"'' @ altAttr @ titleAttr @ ''>'')\<close>

text \<open>\<open>renderer.link\<close>; \<open>inner\<close> is the rendered link text.\<close>

definition link :: "string \<Rightarrow> string \<Rightarrow> string option \<Rightarrow> string \<Rightarrow> string" where
  \<open>link pkg href title inner =
     (let resolvedHref = resolveUrl href pkg;
          titleAttr = (case title of Some t \<Rightarrow> if t \<noteq> [] then '' title="'' @ t @ ''"'' else [] | None \<Rightarrow> []);
          isExternal = (startsWith resolvedHref ''http://'' \<or> startsWith resolvedHref ''https://'');
          relAttr = (if isExternal then '' rel="nofollow noreferrer noopener"'' else []);
          targetAttr = (if isExternal then '' target="_blank"'' else [])
      in ''<a href="'' @ resolvedHref @ ''"'' @ titleAttr @ relAttr @ targetAttr @ ''>'' @ inner @ ''</a>'')\<close>

section \<open>README rendering: the sanitizer policy\<close>

definition ALLOWED_TAGS :: "string list" where
  "ALLOWED_TAGS =
   [''h3'', ''h4'', ''h5'', ''h6'',
    ''p'', ''br'', ''hr'',
    ''ul'', ''ol'', ''li'',
    ''blockquote'', ''pre'', ''code'',
    ''a'', ''strong'', ''em'', ''del'', ''s'',
    ''table'', ''thead'', ''tbody'', ''tr'', ''th'', ''td'',
    ''img'', ''picture'', ''source'',
    ''details'', ''summary'',
    ''div'', ''span'',
    ''sup'', ''sub'',
    ''kbd'', ''mark'']"

definition ALLOWED_ATTR :: "(string \<times> string list) list" where
  "ALLOWED_ATTR =
   [(''a'', [''href'', ''title'', ''target'', ''rel'']),
    (''img'', [''src'', ''alt'', ''title'', ''width'', ''height'']),
    (''source'', [''src'', ''srcset'', ''type'', ''media'']),
    (''th'', [''colspan'', ''rowspan'', ''align'']),
    (''td'', [''colspan'', ''rowspan'', ''align'']),
    (''h3'', [''id'', ''data-level'']),
    (''h4'', [''id'', ''data-level'']),
    (''h5'', [''id'', ''data-level'']),
    (''h6'', [''id'', ''data-level'']),
    (''blockquote'', [''data-callout'']),
    (''details'', [''open'']),
    (''code'', [''class'']),
    (''pre'', [''class'', ''style'']),
    (''span'', [''class'', ''style'']),
    (''div'', [''class'', ''style''])]"

definition allowedSchemes :: "string list" where
  "allowedSchemes = [''http'', ''https'', ''mailto'']"

text \<open>
  An element's attributes are a JavaScript object: attribute name to value, in insertion
  order. Assigning to a property replaces the value in place, or appends a new property
  (\<open>AList.update\<close>).
\<close>

type_synonym Attribs = "(string \<times> string) list"

text \<open>\<open>transformTags.img\<close>.\<close>

definition transformImg :: "string \<Rightarrow> Attribs \<Rightarrow> Attribs" where
  "transformImg pkg attribs =
     (case map_of attribs ''src'' of
        Some src \<Rightarrow>
          if src \<noteq> [] then AList.update ''src'' (resolveImageUrl src pkg) attribs
          else attribs
      | None \<Rightarrow> attribs)"

text \<open>
  \<open>transformTags.a\<close>. \<open>hasProtocol\<close> comes from the package \<open>ufo\<close>, which is not among
  the sources: the predicate \<open>hasProtocol(\<cdot>, { acceptRelative: true })\<close> is a parameter.
\<close>

definition transformA :: "(string \<Rightarrow> bool) \<Rightarrow> Attribs \<Rightarrow> Attribs" where
  "transformA hasProtocol attribs =
     (case map_of attribs ''href'' of
        Some href \<Rightarrow>
          if href \<noteq> [] \<and> hasProtocol href
          then AList.update ''target'' ''_blank''
                 (AList.update ''rel'' ''nofollow noreferrer noopener'' attribs)
          else attribs
      | None \<Rightarrow> attribs)"

definition transformTags :: "(string \<Rightarrow> bool) \<Rightarrow> string \<Rightarrow> string \<Rightarrow> Attribs \<Rightarrow> Attribs" where
  "transformTags hasProtocol pkg tagName attribs =
     (if tagName = ''img'' then transformImg pkg attribs
      else if tagName = ''a'' then transformA hasProtocol attribs
      else attribs)"

text \<open>
  Modelled from the spec: the sanitizer engine itself is the package \<open>sanitize-html\<close>, a
  dependency that is not among the sources; only its configuration above is. Section 4.4 of
  the spec gives its contract: ``strictly allow-list based, both for tags and for attributes
  per tag (an attribute not explicitly listed for its tag is stripped even if the tag itself
  is allowed)'', ``allowed URL schemes: http, https, mailto only, anything else is
  stripped'', and the two transforms. The engine works on the parsed document: a forest of
  text nodes and elements. A tag outside the allow-list is discarded and its content kept,
  except for the tags whose content is not text (\<open>script\<close>, \<open>style\<close>, \<open>textarea\<close>,
  \<open>option\<close>), which go with their content. The transform of a tag runs before the filters.
\<close>

datatype Node = Text string | Element string Attribs "Node list"

definition nonTextTags :: "string list" where
  "nonTextTags = [''script'', ''style'', ''textarea'', ''option'']"

definition schemeAttributes :: "string list" where
  "schemeAttributes = [''href'', ''src'', ''cite'']"

definition allowedAttributes :: "string \<Rightarrow> string list" where
  "allowedAttributes tagName = (case map_of ALLOWED_ATTR tagName of Some names \<Rightarrow> names | None \<Rightarrow> [])"

definition isAlpha :: "char \<Rightarrow> bool" where
  "isAlpha c = ((CHR ''a'' \<le> c \<and> c \<le> CHR ''z'') \<or> (CHR ''A'' \<le> c \<and> c \<le> CHR ''Z''))"

definition isDigit :: "char \<Rightarrow> bool" where
  "isDigit c = (CHR ''0'' \<le> c \<and> c \<le> CHR ''9'')"

definition isSchemeChar :: "char \<Rightarrow> bool" where
  "isSchemeChar c = (isAlpha c \<or> isDigit c \<or> c = CHR ''.'' \<or> c = CHR ''-'' \<or> c = CHR ''+'')"

definition toLowerCase :: "string \<Rightarrow> string" where
  "toLowerCase s =
     map (\<lambda>c. case map_of (zip ''ABCDEFGHIJKLMNOPQRSTUVWXYZ'' ''abcdefghijklmnopqrstuvwxyz'') c of
                 Some l \<Rightarrow> l | None \<Rightarrow> c) s"

text \<open>
  The scheme of a URL, read as a browser does: characters up to the space (code 32) are
  ignored, and a scheme is a letter followed by letters, digits, \<open>.\<close>, \<open>-\<close> or \<open>+\<close>, up to
  a colon; it is compared in lower case. A URL without one (a relative or
  protocol-relative URL, a fragment) has no scheme.
\<close>

definition urlScheme :: "string \<Rightarrow> string option" where
  "urlScheme href =
     (let h = filter (\<lambda>c. CHR '' '' < c) href;
          s = takeWhile isSchemeChar h;
          rest = dropWhile isSchemeChar h
      in case (s, rest) of
           (c # _, d # _) \<Rightarrow> if isAlpha c \<and> d = CHR '':'' then Some (toLowerCase s) else None
         | _ \<Rightarrow> None)"

definition naughtyHref :: "string \<Rightarrow> bool" where
  "naughtyHref href = (case urlScheme href of None \<Rightarrow> False | Some s \<Rightarrow> s \<notin> set allowedSchemes)"

text \<open>
  A \<open>srcset\<close> value is a comma-separated list of image candidates, each a URL optionally
  followed by a descriptor. Candidates with a disallowed scheme are dropped and the rest
  written back; an attribute left without candidates is dropped.
\<close>

definition isSpace :: "char \<Rightarrow> bool" where
  "isSpace c = (c = CHR '' '' \<or> c = CHR 0x09 \<or> c = CHR 0x0A \<or> c = CHR 0x0C \<or> c = CHR 0x0D)"

definition trim :: "string \<Rightarrow> string" where
  "trim s = rev (dropWhile isSpace (rev (dropWhile isSpace s)))"

definition parseCandidate :: "string \<Rightarrow> string \<times> string" where
  "parseCandidate c = (takeWhile (\<lambda>x. \<not> isSpace x) c, trim (dropWhile (\<lambda>x. \<not> isSpace x) c))"

definition parseSrcset :: "string \<Rightarrow> (string \<times> string) list" where
  "parseSrcset v = map parseCandidate (filter (\<lambda>c. c \<noteq> []) (map trim (str_split (CHR '','') v)))"

definition stringifyCandidate :: "string \<times> string \<Rightarrow> string" where
  "stringifyCandidate c = (case c of (u, d) \<Rightarrow> if d = [] then u else u @ '' '' @ d)"

definition stringifySrcset :: "(string \<times> string) list \<Rightarrow> string" where
  "stringifySrcset cs = join '', '' (map stringifyCandidate cs)"

definition sanitizeSrcset :: "string \<Rightarrow> string option" where
  "sanitizeSrcset v =
     (let parsed = filter (\<lambda>c. \<not> naughtyHref (fst c)) (parseSrcset v)
      in if parsed = [] then None else Some (stringifySrcset parsed))"

definition sanitizeAttrib :: "string \<Rightarrow> string \<times> string \<Rightarrow> (string \<times> string) option" where
  "sanitizeAttrib tagName av =
     (case av of (a, v) \<Rightarrow>
        if a \<notin> set (allowedAttributes tagName) then None
        else if a \<in> set schemeAttributes \<and> naughtyHref v then None
        else if a = ''srcset'' then map_option (Pair a) (sanitizeSrcset v)
        else Some (a, v))"

definition sanitizeAttribs :: "string \<Rightarrow> Attribs \<Rightarrow> Attribs" where
  "sanitizeAttribs tagName attribs = List.map_filter (sanitizeAttrib tagName) attribs"

fun sanitizeNode :: "(string \<Rightarrow> bool) \<Rightarrow> string \<Rightarrow> Node \<Rightarrow> Node list" where
  "sanitizeNode hasProtocol pkg (Text s) = [Text s]"
| "sanitizeNode hasProtocol pkg (Element tagName attribs children) =
     (if tagName \<in> set ALLOWED_TAGS
      then [Element tagName
              (sanitizeAttribs tagName (transformTags hasProtocol pkg tagName attribs))
              (concat (map (sanitizeNode hasProtocol pkg) children))]
      else if tagName \<in> set nonTextTags then []
      else concat (map (sanitizeNode hasProtocol pkg) children))"

definition sanitizeHtml :: "(string \<Rightarrow> bool) \<Rightarrow> string \<Rightarrow> Node list \<Rightarrow> Node list" where
  "sanitizeHtml hasProtocol pkg nodes = concat (map (sanitizeNode hasProtocol pkg) nodes)"

text \<open>The elements of a document, each with its attributes, in document order.\<close>

fun elements :: "Node \<Rightarrow> (string \<times> Attribs) list" where
  "elements (Text s) = []"
| "elements (Element tagName attribs children) = (tagName, attribs) # concat (map elements children)"

definition elementsOf :: "Node list \<Rightarrow> (string \<times> Attribs) list" where
  "elementsOf nodes = concat (map elements nodes)"

text \<open>Candidate URLs of an attribute value: those of a \<open>srcset\<close>, or the value itself.\<close>

definition attributeUrls :: "string \<times> string \<Rightarrow> string list" where
  "attributeUrls av =
     (case av of (a, v) \<Rightarrow>
        if a = ''srcset'' then map fst (parseSrcset v)
        else if a \<in> set schemeAttributes then [v]
        else [])"

text \<open>A parsed element has each attribute once.\<close>

fun wellFormed :: "Node \<Rightarrow> bool" where
  "wellFormed (Text s) = True"
| "wellFormed (Element tagName attribs children) =
     (distinct (map fst attribs) \<and> list_all wellFormed children)"

text \<open>
  The shape of a parsed image candidate: a non-empty URL without white space or comma, and
  a trimmed descriptor without comma.
\<close>

definition candidateOk :: "string \<times> string \<Rightarrow> bool" where
  "candidateOk c =
     (fst c \<noteq> [] \<and> (\<forall>x \<in> set (fst c). \<not> isSpace x \<and> x \<noteq> CHR '','')
      \<and> CHR '','' \<notin> set (snd c) \<and> trim (snd c) = snd c)"

text \<open>
  What the policy promises of an element of the output: an allowed tag, allowed attributes
  only, none of them an event handler, and allowed schemes in its URLs.
\<close>

definition safeElement :: "string \<times> Attribs \<Rightarrow> bool" where
  "safeElement e =
     (case e of (t, attribs) \<Rightarrow>
        t \<in> set ALLOWED_TAGS \<and> t \<notin> {''script'', ''style'', ''iframe''}
        \<and> (\<forall>(a, v) \<in> set attribs.
              a \<in> set (allowedAttributes t) \<and> \<not> startsWith (toLowerCase a) ''on''
              \<and> (\<forall>u \<in> set (attributeUrls (a, v)).
                    urlScheme u = None \<or> urlScheme u = Some ''http''
                    \<or> urlScheme u = Some ''https'' \<or> urlScheme u = Some ''mailto'')))"

text \<open>
  No image of the document has a \<open>src\<close> that the blob-to-raw rewrite would change.
\<close>

definition blobFree :: "Node list \<Rightarrow> bool" where
  "blobFree nodes =
     (\<forall>(t, attribs) \<in> set (elementsOf nodes).
        t = ''img'' \<longrightarrow>
        (\<forall>(a, v) \<in> set attribs.
           a = ''src'' \<longrightarrow> \<not> (str_includes v ''github.com'' \<and> str_includes v ''/blob/'')))"

text \<open>The URLs that \<open>resolveUrl\<close> returns as they are, the empty one apart.\<close>

definition passThrough :: "string \<Rightarrow> bool" where
  "passThrough r = (startsWith r ''#'' \<or> startsWith r ''http://'' \<or> startsWith r ''https://''
                    \<or> startsWith r ''//'')"

section \<open>Version history: comparator and release-line grouping\<close>

text \<open>
  Modelled from the spec: the semver comparator and the version grouper live in the
  version selector component and its helpers, which are not among the sources (only the
  component's tests are). Sections 3, 4.1 and 4.2 of the spec give their contracts.

  Comparator (4.1): ``numeric comparison of major, minor, patch; prerelease identifiers
  sort before release; build metadata ignored for ordering''; on malformed input it
  ``treats unparseable components as lowest precedence'' (a missing or non-numeric
  component counts as 0). Prerelease identifiers follow semantic-version precedence:
  compared left to right, numeric ones numerically and below alphanumeric ones,
  alphanumeric ones in ASCII order, a shorter list below a longer one it is a prefix of.
\<close>

definition parseNat :: "string \<Rightarrow> nat option" where
  "parseNat s =
     (if s \<noteq> [] \<and> list_all isDigit s
      then Some (foldl (\<lambda>n c. 10 * n + (of_char c - 48)) 0 s)
      else None)"

record ParsedVersion =
  major :: nat
  minor :: nat
  patch :: nat
  prerelease :: "string option"

definition component :: "string list \<Rightarrow> nat \<Rightarrow> nat" where
  "component parts i =
     (if i < length parts then (case parseNat (parts ! i) of Some n \<Rightarrow> n | None \<Rightarrow> 0) else 0)"

definition parseVersion :: "string \<Rightarrow> ParsedVersion" where
  "parseVersion v =
     (let noBuild = takeWhile (\<lambda>c. c \<noteq> CHR ''+'') v;
          core = takeWhile (\<lambda>c. c \<noteq> CHR ''-'') noBuild;
          rest = dropWhile (\<lambda>c. c \<noteq> CHR ''-'') noBuild;
          parts = str_split (CHR ''.'') core
      in \<lparr>major = component parts 0, minor = component parts 1, patch = component parts 2,
          prerelease = (case rest of [] \<Rightarrow> None | _ # pre \<Rightarrow> Some pre)\<rparr>)"

text \<open>
  The precedence of a version as a value of a linear order (lexicographic on tuples and
  lists, \<open>False < True\<close>): a release ranks above every prerelease of the same
  major.minor.patch, a numeric identifier below an alphanumeric one.
\<close>

type_synonym Identifier = "bool \<times> nat \<times> string"
type_synonym Precedence = "nat \<times> nat \<times> nat \<times> bool \<times> Identifier list"

definition prereleaseIdentifier :: "string \<Rightarrow> Identifier" where
  "prereleaseIdentifier s = (case parseNat s of Some n \<Rightarrow> (False, n, []) | None \<Rightarrow> (True, 0, s))"

definition precedence :: "string \<Rightarrow> Precedence" where
  "precedence v =
     (let p = parseVersion v
      in (major p, minor p, patch p,
          (case prerelease p of
             None \<Rightarrow> (True, [])
           | Some pre \<Rightarrow> (False, map prereleaseIdentifier (str_split (CHR ''.'') pre)))))"

datatype Ordering = Less | Equal | Greater

definition compareVersions :: "string \<Rightarrow> string \<Rightarrow> Ordering" where
  "compareVersions a b =
     (if precedence a < precedence b then Less
      else if precedence b < precedence a then Greater
      else Equal)"

text \<open>
  Grouper (3 and 4.2): ``for versions with major \<ge> 1, key = major; for major = 0,
  key = 0.<minor>''; ``group versions by key; within each group, sort members by
  Comparator descending (newest first)''; ``sort groups themselves by their newest member
  descending''. The input is the list of version strings that are the keys of the version
  map. Sorting is stable (``ties are stable: original relative order preserved'').
\<close>

definition getVersionGroupKey :: "string \<Rightarrow> string" where
  "getVersionGroupKey v =
     (let p = parseVersion v
      in if major p = 0 then ''0.'' @ showNat (minor p) else showNat (major p))"

fun insertNewestFirst :: "string \<Rightarrow> string list \<Rightarrow> string list" where
  "insertNewestFirst v [] = [v]"
| "insertNewestFirst v (w # ws) =
     (if compareVersions v w = Less then w # insertNewestFirst v ws else v # w # ws)"

definition sortNewestFirst :: "string list \<Rightarrow> string list" where
  "sortNewestFirst vs = foldr insertNewestFirst vs []"

record ReleaseLineGroup =
  groupKey :: string
  members :: "string list"

text \<open>Groups are compared by their newest (first) member.\<close>

definition compareGroups :: "ReleaseLineGroup \<Rightarrow> ReleaseLineGroup \<Rightarrow> Ordering" where
  "compareGroups g h =
     (case (members g, members h) of
        (a # _, b # _) \<Rightarrow> compareVersions a b
      | _ \<Rightarrow> Equal)"

fun insertGroup :: "ReleaseLineGroup \<Rightarrow> ReleaseLineGroup list \<Rightarrow> ReleaseLineGroup list" where
  "insertGroup g [] = [g]"
| "insertGroup g (h # hs) =
     (if compareGroups g h = Less then h # insertGroup g hs else g # h # hs)"

definition sortGroups :: "ReleaseLineGroup list \<Rightarrow> ReleaseLineGroup list" where
  "sortGroups gs = foldr insertGroup gs []"

definition groupVersions :: "string list \<Rightarrow> ReleaseLineGroup list" where
  "groupVersions vs =
     sortGroups
       (map (\<lambda>k. \<lparr>groupKey = k, members = sortNewestFirst (filter (\<lambda>v. getVersionGroupKey v = k) vs)\<rparr>)
            (remdups (map getVersionGroupKey vs)))"

text \<open>The precedence of a group's newest member, and the group of a key, as the grouper builds it.\<close>

definition newestPrecedence :: "ReleaseLineGroup \<Rightarrow> Precedence" where
  "newestPrecedence g = precedence (hd (members g))"

definition mkGroup :: "string list \<Rightarrow> string \<Rightarrow> ReleaseLineGroup" where
  "mkGroup vs k =
     \<lparr>groupKey = k, members = sortNewestFirst (filter (\<lambda>v. getVersionGroupKey v = k) vs)\<rparr>"

section \<open>Command synthesis: specifier and install command\<close>

lemma find_packageManagers:
  "find (\<lambda>p. pm_id p = m) packageManagers =
     (if m = ''npm'' then Some (packageManagers ! 0)
      else if m = ''pnpm'' then Some (packageManagers ! 1)
      else if m = ''yarn'' then Some (packageManagers ! 2)
      else if m = ''bun'' then Some (packageManagers ! 3)
      else if m = ''deno'' then Some (packageManagers ! 4)
      else if m = ''vlt'' then Some (packageManagers ! 5)
      else None)"
  by (simp add: packageManagers_def)

lemma find_packageManagersU:
  "find (\<lambda>p. pm_id p = m) packageManagersU =
     (if m = ''npm'' then Some (packageManagersU ! 0)
      else if m = ''pnpm'' then Some (packageManagersU ! 1)
      else if m = ''yarn'' then Some (packageManagersU ! 2)
      else if m = ''bun'' then Some (packageManagersU ! 3)
      else if m = ''deno'' then Some (packageManagersU ! 4)
      else if m = ''vlt'' then Some (packageManagersU ! 5)
      else None)"
  by (simp add: packageManagersU_def)

lemma getPackageSpecifierU_eq: "getPackageSpecifierU opts = getPackageSpecifier opts"
  by (simp add: getPackageSpecifierU_def getPackageSpecifier_def)

text \<open>
  Claim C6. For every options struct, \<open>getPackageSpecifier\<close> (in both copies of the module)
  returns \<open>jsr:@<scope>/<name>\<close> when the package manager is deno and \<open>jsrInfo\<close> has
  \<open>exists\<close> true with both scope and name present (a non-empty string each); it returns
  \<open>npm:<packageName>\<close> when the package manager is deno and \<open>jsrInfo\<close> is absent or null,
  has \<open>exists\<close> false, or lacks scope or name (undefined or empty); and it returns the
  package name unchanged for every other package manager.
\<close>

theorem getPackageSpecifier_dialects:
  "(packageManager opts = ''deno'' \<longrightarrow>
      (\<forall>j s n. jsrInfo opts = Some j \<and> jsr_exists j \<and> jsr_scope j = Some s \<and> s \<noteq> []
               \<and> jsr_name j = Some n \<and> n \<noteq> [] \<longrightarrow>
          getPackageSpecifier opts = ''jsr:@'' @ s @ ''/'' @ n
          \<and> getPackageSpecifierU opts = ''jsr:@'' @ s @ ''/'' @ n)
      \<and> ((jsrInfo opts = None
           \<or> (\<exists>j. jsrInfo opts = Some j
                  \<and> (\<not> jsr_exists j \<or> jsr_scope j = None \<or> jsr_scope j = Some []
                       \<or> jsr_name j = None \<or> jsr_name j = Some []))) \<longrightarrow>
          getPackageSpecifier opts = ''npm:'' @ packageName opts
          \<and> getPackageSpecifierU opts = ''npm:'' @ packageName opts))
   \<and> (packageManager opts \<noteq> ''deno'' \<longrightarrow>
          getPackageSpecifier opts = packageName opts
          \<and> getPackageSpecifierU opts = packageName opts)"
  by (auto simp: getPackageSpecifierU_eq getPackageSpecifier_def jsrSpecifier_def
           split: option.splits)

theorem getPackageSpecifier_dialects_witness:
  "getPackageSpecifier
     \<lparr>packageName = ''@trpc/server'', packageManager = ''deno'', version = None,
      jsrInfo = Some \<lparr>jsr_exists = True, jsr_scope = Some ''trpc'', jsr_name = Some ''server'',
                      jsr_url = Some ''https://jsr.io/@trpc/server'', jsr_latestVersion = Some ''10.0.0''\<rparr>\<rparr>
     = ''jsr:@trpc/server''
   \<and> getPackageSpecifier
     \<lparr>packageName = ''@trpc/server'', packageManager = ''deno'', version = None,
      jsrInfo = Some \<lparr>jsr_exists = False, jsr_scope = None, jsr_name = None,
                      jsr_url = None, jsr_latestVersion = None\<rparr>\<rparr>
     = ''npm:@trpc/server''
   \<and> getPackageSpecifier
     \<lparr>packageName = ''@trpc/server'', packageManager = ''pnpm'', version = None, jsrInfo = None\<rparr>
     = ''@trpc/server''"
  using getPackageSpecifier_dialects [of
      "\<lparr>packageName = ''@trpc/server'', packageManager = ''deno'', version = None,
      jsrInfo = Some \<lparr>jsr_exists = True, jsr_scope = Some ''trpc'', jsr_name = Some ''server'',
                      jsr_url = Some ''https://jsr.io/@trpc/server'', jsr_latestVersion = Some ''10.0.0''\<rparr>\<rparr>"]
    getPackageSpecifier_dialects [of
      "\<lparr>packageName = ''@trpc/server'', packageManager = ''deno'', version = None,
      jsrInfo = Some \<lparr>jsr_exists = False, jsr_scope = None, jsr_name = None,
                      jsr_url = None, jsr_latestVersion = None\<rparr>\<rparr>"]
    getPackageSpecifier_dialects [of
      "\<lparr>packageName = ''@trpc/server'', packageManager = ''pnpm'', version = None, jsrInfo = None\<rparr>"]
  by simp

lemma dialects: "pm_id ` set packageManagers = {''npm'', ''pnpm'', ''yarn'', ''bun'', ''deno'', ''vlt''}"
  by (simp add: packageManagers_def)

text \<open>
  Claim C7. For every options struct whose package manager is one of the six dialects of
  the table, \<open>getInstallCommandParts\<close> returns exactly the three-element list of the
  dialect's label (which is its id), its install verb (\<open>install\<close> for npm and vlt, \<open>add\<close>
  for the others) and the specifier followed by \<open>@<version>\<close> when a version is supplied,
  and \<open>getInstallCommand\<close> returns these parts joined by single spaces. For any other
  package manager both return the empty result; the function has no failing path.
\<close>

theorem getInstallCommandParts_dialects:
  "set (map pm_id packageManagers) = {''npm'', ''pnpm'', ''yarn'', ''bun'', ''deno'', ''vlt''}
   \<and> (packageManager opts \<in> set (map pm_id packageManagers) \<longrightarrow>
      (\<exists>verb suffix.
         verb = (if packageManager opts \<in> {''npm'', ''vlt''} then ''install'' else ''add'')
         \<and> suffix = (case version opts of None \<Rightarrow> [] | Some v \<Rightarrow> if v = [] then [] else ''@'' @ v)
         \<and> getInstallCommandParts opts
             = [packageManager opts, verb, getPackageSpecifier opts @ suffix]
         \<and> getInstallCommand opts
             = packageManager opts @ '' '' @ verb @ '' '' @ getPackageSpecifier opts @ suffix))
   \<and> (packageManager opts \<notin> set (map pm_id packageManagers) \<longrightarrow>
          getInstallCommandParts opts = [] \<and> getInstallCommand opts = [])"
  unfolding set_map dialects
  by (auto simp: getInstallCommand_def getInstallCommandParts_def
        find_packageManagers packageManagers_def split: option.splits)

theorem getInstallCommandParts_dialects_witness:
  "getInstallCommand \<lparr>packageName = ''lodash'', packageManager = ''npm'', version = None, jsrInfo = None\<rparr>
     = ''npm install lodash''
   \<and> getInstallCommandParts
        \<lparr>packageName = ''lodash'', packageManager = ''pnpm'', version = Some ''4.17.21'', jsrInfo = None\<rparr>
     = [''pnpm'', ''add'', ''lodash@4.17.21'']
   \<and> getInstallCommandParts
        \<lparr>packageName = ''lodash'', packageManager = ''invalid'', version = None, jsrInfo = None\<rparr> = []
   \<and> getInstallCommand
        \<lparr>packageName = ''lodash'', packageManager = ''invalid'', version = None, jsrInfo = None\<rparr> = []"
  using getInstallCommandParts_dialects [of
      "\<lparr>packageName = ''lodash'', packageManager = ''npm'', version = None, jsrInfo = None\<rparr>"]
    getInstallCommandParts_dialects [of
      "\<lparr>packageName = ''lodash'', packageManager = ''pnpm'', version = Some ''4.17.21'', jsrInfo = None\<rparr>"]
    getInstallCommandParts_dialects [of
      "\<lparr>packageName = ''lodash'', packageManager = ''invalid'', version = None, jsrInfo = None\<rparr>"]
  by (simp add: dialects getPackageSpecifier_def)

section \<open>Command synthesis: the two copies of the module compared\<close>

lemma getInstallCommandPartsU_eq: "getInstallCommandPartsU opts = getInstallCommandParts opts"
  by (simp add: getInstallCommandPartsU_def getInstallCommandParts_def getPackageSpecifierU_eq
      find_packageManagers find_packageManagersU packageManagers_def packageManagersU_def)

lemma local_parts:
  "\<not> flag (isBinaryOnly opts) \<Longrightarrow> \<not> flag (isCreatePackage opts) \<Longrightarrow>
   getExecuteCommandParts f opts =
     (let m = packageManager opts; spec = getPackageSpecifier opts in
      if m = ''npm'' then [''npx'', spec]
      else if m = ''pnpm'' then [''pnpm'', ''exec'', spec]
      else if m = ''yarn'' then [''npx'', spec]
      else if m = ''bun'' then [''bunx'', spec]
      else if m = ''deno'' then [''deno'', ''run'', spec]
      else if m = ''vlt'' then [''vlx'', spec]
      else [])"
  by (simp add: getExecuteCommandParts_def find_packageManagers packageManagers_def Let_def)

lemma unified_parts:
  "getExecuteCommandPartsU opts =
     (let m = packageManager opts; spec = getPackageSpecifier opts in
      if m = ''npm'' then [''npx'', spec]
      else if m = ''pnpm'' then [''pnpm dlx'', spec]
      else if m = ''yarn'' then [''yarn dlx'', spec]
      else if m = ''bun'' then [''bunx'', spec]
      else if m = ''deno'' then [''deno run'', spec]
      else if m = ''vlt'' then [''vlt x'', spec]
      else [])"
  by (simp add: getExecuteCommandPartsU_def find_packageManagersU packageManagersU_def Let_def
      getPackageSpecifierU_eq)

text \<open>
  Claim C8, as amended. The two copies of the install-command module agree on
  \<open>getInstallCommandParts\<close> for every input. On the local-execute path of the first
  module (neither binary-only nor a create package), its \<open>getExecuteCommandParts\<close> equals
  the second module's exactly when the package manager is none of pnpm, yarn, deno and vlt:
  npm and bun agree, an unknown package manager gives the empty list in both; pnpm differs
  (\<open>pnpm exec\<close> against \<open>pnpm dlx\<close>), yarn differs (\<open>npx\<close> against \<open>yarn dlx\<close>), vlt differs
  (\<open>vlx\<close> against \<open>vlt x\<close>), and deno differs as a list only (two tokens \<open>deno\<close>, \<open>run\<close>
  against the single token \<open>deno run\<close>): the joined commands differ exactly for pnpm, yarn
  and vlt.
\<close>

theorem install_modules_compared:
  fixes iopts :: "'a InstallCommandOptions_scheme" and opts :: ExecuteCommandOptions
  shows
  "getInstallCommandPartsU iopts = getInstallCommandParts iopts
   \<and> (\<not> flag (isBinaryOnly opts) \<and> \<not> flag (isCreatePackage opts) \<longrightarrow>
        ((getExecuteCommandParts getCreateShortName opts = getExecuteCommandPartsU opts)
           = (packageManager opts \<notin> {''pnpm'', ''yarn'', ''deno'', ''vlt''}))
        \<and> ((getExecuteCommand getCreateShortName opts = getExecuteCommandU opts)
           = (packageManager opts \<notin> {''pnpm'', ''yarn'', ''vlt''})))"
  by (auto simp: getInstallCommandPartsU_eq local_parts unified_parts Let_def
        getExecuteCommand_def getExecuteCommandU_def)

theorem install_modules_compared_witness:
  "getInstallCommandPartsU \<lparr>packageName = ''lodash'', packageManager = ''yarn'', version = Some ''4.17.21'', jsrInfo = None\<rparr>
     = getInstallCommandParts \<lparr>packageName = ''lodash'', packageManager = ''yarn'', version = Some ''4.17.21'', jsrInfo = None\<rparr>
   \<and> getExecuteCommandParts (\<lambda>n. n)
        \<lparr>packageName = ''eslint'', packageManager = ''bun'', version = None, jsrInfo = None,
         isBinaryOnly = Some False, isCreatePackage = None\<rparr>
     = getExecuteCommandPartsU
        \<lparr>packageName = ''eslint'', packageManager = ''bun'', version = None, jsrInfo = None,
         isBinaryOnly = Some False, isCreatePackage = None\<rparr>
   \<and> getExecuteCommand (\<lambda>n. n)
        \<lparr>packageName = ''eslint'', packageManager = ''bun'', version = None, jsrInfo = None,
         isBinaryOnly = Some False, isCreatePackage = None\<rparr>
     = getExecuteCommandU
        \<lparr>packageName = ''eslint'', packageManager = ''bun'', version = None, jsrInfo = None,
         isBinaryOnly = Some False, isCreatePackage = None\<rparr>"
  using install_modules_compared [of
      "\<lparr>packageName = ''lodash'', packageManager = ''yarn'', version = Some ''4.17.21'', jsrInfo = None\<rparr>"
      "\<lparr>packageName = ''eslint'', packageManager = ''bun'', version = None, jsrInfo = None,
         isBinaryOnly = Some False, isCreatePackage = None\<rparr>" "\<lambda>n. n"]
  by simp

text \<open>
  The claim as first stated has the two modules differ for yarn and vlt only. For pnpm the
  first module runs \<open>pnpm exec\<close> on the local path, the second \<open>pnpm dlx\<close>, and the token
  lists differ in length as well.
\<close>

theorem execute_pnpm_counterexample:
  "getExecuteCommandParts (\<lambda>n. n)
        \<lparr>packageName = ''eslint'', packageManager = ''pnpm'', version = None, jsrInfo = None,
         isBinaryOnly = Some False, isCreatePackage = None\<rparr> = [''pnpm'', ''exec'', ''eslint'']
   \<and> getExecuteCommandPartsU
        \<lparr>packageName = ''eslint'', packageManager = ''pnpm'', version = None, jsrInfo = None,
         isBinaryOnly = Some False, isCreatePackage = None\<rparr> = [''pnpm dlx'', ''eslint'']
   \<and> getExecuteCommand (\<lambda>n. n)
        \<lparr>packageName = ''eslint'', packageManager = ''pnpm'', version = None, jsrInfo = None,
         isBinaryOnly = Some False, isCreatePackage = None\<rparr> = ''pnpm exec eslint''
   \<and> getExecuteCommandU
        \<lparr>packageName = ''eslint'', packageManager = ''pnpm'', version = None, jsrInfo = None,
         isBinaryOnly = Some False, isCreatePackage = None\<rparr> = ''pnpm dlx eslint''
   \<and> getExecuteCommandParts (\<lambda>n. n)
        \<lparr>packageName = ''eslint'', packageManager = ''pnpm'', version = None, jsrInfo = None,
         isBinaryOnly = Some False, isCreatePackage = None\<rparr>
     \<noteq> getExecuteCommandPartsU
        \<lparr>packageName = ''eslint'', packageManager = ''pnpm'', version = None, jsrInfo = None,
         isBinaryOnly = Some False, isCreatePackage = None\<rparr>"
  by (simp add: getExecuteCommand_def getExecuteCommandU_def getExecuteCommandParts_def
      getExecuteCommandPartsU_def packageManagers_def packageManagersU_def
      getPackageSpecifier_def getPackageSpecifierU_def)

section \<open>URL resolution and the heading and link renderers\<close>

lemma str_includes_length: "str_includes s p \<Longrightarrow> length p \<le> length s"
  by (induction s) (auto dest: prefix_length_le)

lemma str_includes_iff: "str_includes s p \<longleftrightarrow> (\<exists>a b. s = a @ p @ b)"
proof (induction s)
  case Nil
  then show ?case by auto
next
  case (Cons c cs)
  show ?case
  proof
    assume "str_includes (c # cs) p"
    then consider "prefix p (c # cs)" | "str_includes cs p" by auto
    then show "\<exists>a b. c # cs = a @ p @ b"
    proof cases
      case 1
      then obtain b where "c # cs = p @ b" by (auto simp: prefix_def)
      then have "c # cs = [] @ p @ b" by simp
      then show ?thesis by blast
    next
      case 2
      with Cons obtain a b where "cs = a @ p @ b" by blast
      then have "c # cs = (c # a) @ p @ b" by simp
      then show ?thesis by blast
    qed
  next
    assume "\<exists>a b. c # cs = a @ p @ b"
    then obtain a b where ab: "c # cs = a @ p @ b" by blast
    show "str_includes (c # cs) p"
    proof (cases a)
      case Nil
      with ab have "prefix p (c # cs)" by (simp add: prefix_def)
      then show ?thesis by simp
    next
      case (Cons x a')
      with ab have "cs = a' @ p @ b" by simp
      with Cons.IH show ?thesis by auto
    qed
  qed
qed

lemma str_replace_first:
  "p \<noteq> [] \<Longrightarrow> str_includes s p \<Longrightarrow>
   \<exists>a b. s = a @ p @ b \<and> \<not> str_includes (a @ butlast p) p \<and> str_replace s p r = a @ r @ b"
proof (induction s)
  case Nil
  then show ?case by simp
next
  case (Cons c cs)
  show ?case
  proof (cases "prefix p (c # cs)")
    case True
    then obtain b where b: "c # cs = p @ b" by (auto simp: prefix_def)
    have "\<not> str_includes (butlast p) p"
    proof
      assume "str_includes (butlast p) p"
      then have "length p \<le> length (butlast p)" by (rule str_includes_length)
      then have "length p \<le> length p - 1" by (simp only: length_butlast)
      moreover have "0 < length p" using Cons.prems(1) by simp
      ultimately show False by arith
    qed
    moreover have "str_replace (c # cs) p r = r @ b"
    proof -
      have "str_replace (c # cs) p r = r @ drop (length p) (c # cs)" using True by simp
      moreover have "drop (length p) (c # cs) = b" by (simp add: b)
      ultimately show ?thesis by simp
    qed
    ultimately have "c # cs = [] @ p @ b \<and> \<not> str_includes ([] @ butlast p) p
        \<and> str_replace (c # cs) p r = [] @ r @ b"
      using b by simp
    then show ?thesis by blast
  next
    case False
    with Cons.prems have "str_includes cs p" by simp
    with Cons obtain a b where ab: "cs = a @ p @ b" "\<not> str_includes (a @ butlast p) p"
      "str_replace cs p r = a @ r @ b" by blast
    have "\<not> prefix p (c # a @ butlast p)"
    proof
      assume "prefix p (c # a @ butlast p)"
      moreover have "prefix (c # a @ butlast p) (c # cs)"
        using ab(1) Cons.prems(1) by (simp add: prefix_def) (metis append_butlast_last_id append.assoc append_Cons)
      ultimately have "prefix p (c # cs)" by (rule prefix_order.trans)
      with False show False by simp
    qed
    with ab(2) have "\<not> str_includes ((c # a) @ butlast p) p" by simp
    moreover have "c # cs = (c # a) @ p @ b" using ab(1) by simp
    moreover have "str_replace (c # cs) p r = (c # a) @ r @ b" using False ab(3) by simp
    ultimately show ?thesis by blast
  qed
qed

lemma resolveUrl_external:
  "(startsWith (resolveUrl u p) ''http://'' \<or> startsWith (resolveUrl u p) ''https://'')
     = (u \<noteq> [] \<and> \<not> startsWith u ''#'' \<and> \<not> startsWith u ''//'')"
  by (cases u) (auto simp: resolveUrl_def startsWith_def)

lemma showNat_digit: "n < 10 \<Longrightarrow> showNat n = [digit n]"
  by (simp add: showNat.simps)

text \<open>
  Claim C3. For every Markdown heading of original level \<open>d\<close> with \<open>1 \<le> d \<le> 6\<close>, the
  heading renderer emits an element \<open>h<l>\<close> with \<open>l = min (d + 2) 6\<close>, between 3 and 6,
  carrying \<open>data-level="<d>"\<close>; the tag and the attribute are on the sanitizer's allow-lists.
  In particular a level-1 heading \<open>Title\<close> renders as \<open><h3 data-level="1">Title</h3>\<close>.
\<close>

theorem heading_semantic_level:
  assumes "1 \<le> d" and "d \<le> 6"
  shows \<open>\<exists>l. l = min (d + 2) 6 \<and> 3 \<le> l \<and> l \<le> 6
          \<and> heading d inner
              = ''<h'' @ showNat l @ '' data-level="'' @ showNat d @ ''">'' @ inner
                @ ''</h'' @ showNat l @ ''>'' @ [CHR 0x0A]
          \<and> (''h'' @ showNat l) \<in> set ALLOWED_TAGS
          \<and> ''data-level'' \<in> set (allowedAttributes (''h'' @ showNat l))\<close>
proof -
  from assms consider "d = 1" | "d = 2" | "d = 3" | "d = 4" | "d = 5" | "d = 6" by arith
  then show ?thesis
    by cases
      (simp_all add: heading_def showNat_digit digit_def ALLOWED_TAGS_def allowedAttributes_def
        ALLOWED_ATTR_def)
qed

theorem heading_semantic_level_witness:
  \<open>heading 1 ''Title'' = ''<h3 data-level="1">Title</h3>'' @ [CHR 0x0A]
   \<and> heading 5 ''Title'' = ''<h6 data-level="5">Title</h6>'' @ [CHR 0x0A]\<close>
  using heading_semantic_level [of 1 "''Title''"] heading_semantic_level [of 5 "''Title''"]
  by (simp add: showNat_digit digit_def)

text \<open>
  Claim C4, as amended. For every non-empty image URL \<open>u\<close> and package name \<open>p\<close>: the
  resolved URL \<open>r\<close> is \<open>u\<close> itself if \<open>u\<close> starts with \<open>http://\<close>, \<open>https://\<close>, \<open>//\<close> or
  \<open>#\<close>, and otherwise \<open>https://cdn.jsdelivr.net/npm/<p>/\<close> followed by \<open>u\<close> with one
  leading \<open>./\<close> stripped; if \<open>r\<close> contains \<open>github.com\<close> and \<open>/blob/\<close>, the result is \<open>r\<close>
  with its first \<open>/blob/\<close> replaced by \<open>/raw/\<close>, and otherwise it is \<open>r\<close>. The empty URL
  is returned unchanged.
\<close>

theorem resolveImageUrl_cases:
  "resolveImageUrl [] p = []
   \<and> (u \<noteq> [] \<longrightarrow>
        (\<exists>r. r = (if startsWith u ''http://'' \<or> startsWith u ''https://'' \<or> startsWith u ''//''
                      \<or> startsWith u ''#''
                   then u
                   else ''https://cdn.jsdelivr.net/npm/'' @ p @ ''/''
                          @ (if startsWith u ''./'' then drop 2 u else u))
           \<and> resolveUrl u p = r
           \<and> (if str_includes r ''github.com'' \<and> str_includes r ''/blob/''
               then \<exists>a b. r = a @ ''/blob/'' @ b \<and> \<not> str_includes (a @ ''/blob'') ''/blob/''
                         \<and> resolveImageUrl u p = a @ ''/raw/'' @ b
               else resolveImageUrl u p = r)))"
proof -
  have 1: "resolveImageUrl [] p = []"
    by (simp add: resolveImageUrl_def resolveUrl_def)
  have 2: "resolveUrl u p = (if startsWith u ''http://'' \<or> startsWith u ''https://'' \<or> startsWith u ''//''
                      \<or> startsWith u ''#''
                   then u
                   else ''https://cdn.jsdelivr.net/npm/'' @ p @ ''/''
                          @ (if startsWith u ''./'' then drop 2 u else u))" if "u \<noteq> []"
    using that by (auto simp: resolveUrl_def)
  have 3: "\<exists>a b. r = a @ ''/blob/'' @ b \<and> \<not> str_includes (a @ ''/blob'') ''/blob/''
                         \<and> str_replace r ''/blob/'' ''/raw/'' = a @ ''/raw/'' @ b"
    if "str_includes r ''/blob/''" for r
    using str_replace_first [of "''/blob/''" r "''/raw/''"] that by simp
  show ?thesis
    using 1 2 3 [of "resolveUrl u p"] by (auto simp: resolveImageUrl_def Let_def)
qed

theorem resolveImageUrl_cases_witness:
  "resolveImageUrl ''./img.png'' ''foo'' = ''https://cdn.jsdelivr.net/npm/foo/img.png''
   \<and> resolveImageUrl ''https://github.com/nuxt/nuxt/blob/main/.github/assets/banner.svg'' ''nuxt''
       = ''https://github.com/nuxt/nuxt/raw/main/.github/assets/banner.svg''"
  using resolveImageUrl_cases [of "''foo''" "''./img.png''"]
  by (simp add: startsWith_def resolveImageUrl_def resolveUrl_def)

text \<open>
  The empty image URL starts with none of the four prefixes, and is returned as it is:
  \<open>resolveUrl\<close> begins with \<open>if (!url) return url\<close>.
\<close>

theorem resolveImageUrl_empty_counterexample:
  "resolveImageUrl [] ''foo'' = []
   \<and> resolveImageUrl [] ''foo'' \<noteq> ''https://cdn.jsdelivr.net/npm/foo/''
   \<and> \<not> startsWith [] ''http://'' \<and> \<not> startsWith [] ''https://''
   \<and> \<not> startsWith [] ''//'' \<and> \<not> startsWith [] ''#''"
  by (simp add: resolveImageUrl_def resolveUrl_def startsWith_def)

text \<open>
  Claim C5, as amended. For every rendered link the href is resolved by \<open>resolveUrl\<close>,
  the resolution of images without the blob-to-raw step. The link is emitted with
  \<open>rel="nofollow noreferrer noopener"\<close> and \<open>target="_blank"\<close> exactly when the resolved
  href starts with \<open>http://\<close> or \<open>https://\<close>, that is, for every href that is not empty,
  not a fragment (\<open>#...\<close>) and not protocol-relative (\<open>//...\<close>): relative links, which
  resolve to the CDN, get both attributes too. The sanitizer's transform of \<open>a\<close> then sets
  both attributes on every element whose href is non-empty and has a protocol
  (protocol-relative ones included), and leaves the other elements as they are.
\<close>

theorem link_rel_target:
  \<open>link p href title inner =
     ''<a href="'' @ resolveUrl href p @ ''"''
       @ (case title of None \<Rightarrow> [] | Some t \<Rightarrow> if t = [] then [] else '' title="'' @ t @ ''"'')
       @ (if href = [] \<or> startsWith href ''#'' \<or> startsWith href ''//'' then []
          else '' rel="nofollow noreferrer noopener" target="_blank"'')
       @ ''>'' @ inner @ ''</a>''
   \<and> resolveImageUrl href p =
       (if str_includes (resolveUrl href p) ''github.com'' \<and> str_includes (resolveUrl href p) ''/blob/''
        then str_replace (resolveUrl href p) ''/blob/'' ''/raw/'' else resolveUrl href p)
   \<and> ((\<exists>h. map_of attribs ''href'' = Some h \<and> h \<noteq> [] \<and> hasProtocol h) \<longrightarrow>
         map_of (transformA hasProtocol attribs) ''rel'' = Some ''nofollow noreferrer noopener''
         \<and> map_of (transformA hasProtocol attribs) ''target'' = Some ''_blank''
         \<and> (\<forall>k. k \<noteq> ''rel'' \<and> k \<noteq> ''target'' \<longrightarrow>
                map_of (transformA hasProtocol attribs) k = map_of attribs k))
   \<and> (\<not> (\<exists>h. map_of attribs ''href'' = Some h \<and> h \<noteq> [] \<and> hasProtocol h) \<longrightarrow>
         transformA hasProtocol attribs = attribs)\<close>
proof -
  have \<open>link p href title inner =
     ''<a href="'' @ resolveUrl href p @ ''"''
       @ (case title of None \<Rightarrow> [] | Some t \<Rightarrow> if t = [] then [] else '' title="'' @ t @ ''"'')
       @ (if href = [] \<or> startsWith href ''#'' \<or> startsWith href ''//'' then []
          else '' rel="nofollow noreferrer noopener" target="_blank"'')
       @ ''>'' @ inner @ ''</a>''\<close>
    using resolveUrl_external [of href p]
    by (simp add: link_def Let_def split: option.splits)
  moreover have "resolveImageUrl href p =
       (if str_includes (resolveUrl href p) ''github.com'' \<and> str_includes (resolveUrl href p) ''/blob/''
        then str_replace (resolveUrl href p) ''/blob/'' ''/raw/'' else resolveUrl href p)"
    by (simp add: resolveImageUrl_def Let_def)
  moreover have "map_of (transformA hasProtocol attribs) ''rel'' = Some ''nofollow noreferrer noopener''
         \<and> map_of (transformA hasProtocol attribs) ''target'' = Some ''_blank''
         \<and> (\<forall>k. k \<noteq> ''rel'' \<and> k \<noteq> ''target'' \<longrightarrow>
                map_of (transformA hasProtocol attribs) k = map_of attribs k)"
    if "\<exists>h. map_of attribs ''href'' = Some h \<and> h \<noteq> [] \<and> hasProtocol h"
    using that by (auto simp: transformA_def update_conv')
  moreover have "transformA hasProtocol attribs = attribs"
    if "\<not> (\<exists>h. map_of attribs ''href'' = Some h \<and> h \<noteq> [] \<and> hasProtocol h)"
    using that by (auto simp: transformA_def split: option.splits)
  ultimately show ?thesis by blast
qed

theorem link_rel_target_witness:
  \<open>link ''foo'' ''#usage'' None ''Usage'' = ''<a href="#usage">Usage</a>''
   \<and> link ''foo'' ''https://example.com/'' (Some ''Home'') ''site''
       = ''<a href="https://example.com/" title="Home" rel="nofollow noreferrer noopener" target="_blank">site</a>''\<close>
  using link_rel_target [of "''foo''" "''#usage''" None "''Usage''"]
    link_rel_target [of "''foo''" "''https://example.com/''" "Some ''Home''" "''site''"]
  by (simp add: resolveUrl_def startsWith_def)

text \<open>
  A relative link resolves to the CDN, an \<open>https://\<close> URL, so the renderer gives it both
  attributes: the claim as first stated has relative links get neither.
\<close>

theorem link_relative_counterexample:
  \<open>link ''foo'' ''./docs/guide.md'' None ''Guide''
     = ''<a href="https://cdn.jsdelivr.net/npm/foo/docs/guide.md" rel="nofollow noreferrer noopener" target="_blank">Guide</a>''\<close>
  by (simp add: link_def resolveUrl_def startsWith_def)

text \<open>
  Claim C10, as amended. \<open>resolveUrl\<close> returns its argument unchanged exactly for the empty
  URL and for URLs that start with \<open>#\<close>, \<open>http://\<close>, \<open>https://\<close> or \<open>//\<close>; every other URL,
  whatever scheme it carries, is rewritten to \<open>https://cdn.jsdelivr.net/npm/<p>/\<close> followed
  by the URL with one leading \<open>./\<close> stripped. Although \<open>mailto\<close> is among the sanitizer's
  allowed schemes, \<open>mailto:user@example.com\<close> becomes a CDN URL, and a link to it is
  rendered with that CDN href.
\<close>

theorem resolveUrl_passthrough:
  \<open>((resolveUrl u p = u)
      = (u = [] \<or> startsWith u ''#'' \<or> startsWith u ''http://'' \<or> startsWith u ''https://''
         \<or> startsWith u ''//''))
   \<and> (resolveUrl u p \<noteq> u \<longrightarrow>
        resolveUrl u p = ''https://cdn.jsdelivr.net/npm/'' @ p @ ''/''
                           @ (if startsWith u ''./'' then drop 2 u else u))
   \<and> ''mailto'' \<in> set allowedSchemes
   \<and> resolveUrl ''mailto:user@example.com'' p
       = ''https://cdn.jsdelivr.net/npm/'' @ p @ ''/mailto:user@example.com''
   \<and> link p ''mailto:user@example.com'' None inner
       = ''<a href="https://cdn.jsdelivr.net/npm/'' @ p
         @ ''/mailto:user@example.com" rel="nofollow noreferrer noopener" target="_blank">''
         @ inner @ ''</a>''\<close>
proof -
  let ?pass = "u = [] \<or> startsWith u ''#'' \<or> startsWith u ''http://'' \<or> startsWith u ''https://''
         \<or> startsWith u ''//''"
  have pass: "resolveUrl u p = u" if ?pass
    using that by (auto simp: resolveUrl_def)
  have rew: "resolveUrl u p = ''https://cdn.jsdelivr.net/npm/'' @ p @ ''/''
                           @ (if startsWith u ''./'' then drop 2 u else u)" if "\<not> ?pass"
    using that by (simp add: resolveUrl_def)
  have ne: "resolveUrl u p \<noteq> u" if n: "\<not> ?pass"
  proof
    assume eq: "resolveUrl u p = u"
    have "startsWith (resolveUrl u p) ''https://''"
      by (simp add: rew [OF n] startsWith_def)
    with eq n show False by simp
  qed
  have 1: "(resolveUrl u p = u) = ?pass" using pass ne by blast
  have 2: "resolveUrl u p \<noteq> u \<longrightarrow>
        resolveUrl u p = ''https://cdn.jsdelivr.net/npm/'' @ p @ ''/''
                           @ (if startsWith u ''./'' then drop 2 u else u)"
    using pass rew by blast
  have 3: "''mailto'' \<in> set allowedSchemes" by (simp add: allowedSchemes_def)
  have 4: "resolveUrl ''mailto:user@example.com'' p
       = ''https://cdn.jsdelivr.net/npm/'' @ p @ ''/mailto:user@example.com''"
    by (simp add: resolveUrl_def startsWith_def)
  have 5: \<open>link p ''mailto:user@example.com'' None inner
       = ''<a href="https://cdn.jsdelivr.net/npm/'' @ p
         @ ''/mailto:user@example.com" rel="nofollow noreferrer noopener" target="_blank">''
         @ inner @ ''</a>''\<close>
    by (simp add: link_def 4 startsWith_def)
  show ?thesis by (intro conjI 1 2 3 4 5)
qed

theorem resolveUrl_passthrough_witness:
  "resolveUrl ''mailto:user@example.com'' ''foo'' \<noteq> ''mailto:user@example.com''
   \<and> resolveUrl ''mailto:user@example.com'' ''foo''
       = ''https://cdn.jsdelivr.net/npm/foo/mailto:user@example.com''
   \<and> resolveImageUrl ''data:image/png;base64,AAAA'' ''foo''
       = ''https://cdn.jsdelivr.net/npm/foo/data:image/png;base64,AAAA''"
  using resolveUrl_passthrough [of "''mailto:user@example.com''" "''foo''"]
  by (simp add: startsWith_def resolveImageUrl_def resolveUrl_def)

text \<open>
  The empty URL is passed through as well, although it starts with none of the four
  prefixes.
\<close>

theorem resolveUrl_empty_counterexample:
  "resolveUrl [] ''foo'' = []
   \<and> resolveUrl [] ''foo'' \<noteq> ''https://cdn.jsdelivr.net/npm/foo/''
   \<and> \<not> startsWith [] ''#'' \<and> \<not> startsWith [] ''http://''
   \<and> \<not> startsWith [] ''https://'' \<and> \<not> startsWith [] ''//''"
  by (simp add: resolveUrl_def startsWith_def)

section \<open>The sanitizer: safety and the second pass\<close>

subsection \<open>Splitting and trimming\<close>

lemma str_split_not_Nil: "str_split sep s \<noteq> []"
  by (induction s) (auto split: list.splits)

lemma str_split_no_sep: "sep \<notin> set a \<Longrightarrow> str_split sep a = [a]"
  by (induction a) auto

lemma str_split_append: "sep \<notin> set a \<Longrightarrow> str_split sep (a @ sep # b) = a # str_split sep b"
  by (induction a) auto

lemma str_split_pieces: "x \<in> set (str_split sep s) \<Longrightarrow> sep \<notin> set x"
proof (induction s arbitrary: x)
  case Nil
  then show ?case by simp
next
  case (Cons c cs)
  show ?case
  proof (cases "c = sep")
    case True
    with Cons show ?thesis by auto
  next
    case False
    obtain w ws where ws: "str_split sep cs = w # ws"
      using str_split_not_Nil [of sep cs] by (cases "str_split sep cs") auto
    with Cons.prems False have "x = c # w \<or> x \<in> set ws" by simp
    moreover have "sep \<notin> set w" using Cons.IH [of w] ws by simp
    moreover have "x \<in> set ws \<Longrightarrow> sep \<notin> set x" using Cons.IH [of x] ws by simp
    ultimately show ?thesis using False by auto
  qed
qed

lemma trim_Nil: "trim [] = []"
  by (simp add: trim_def)

lemma trim_space_Cons: "isSpace c \<Longrightarrow> trim (c # s) = trim s"
  by (simp add: trim_def)

lemma set_trim: "set (trim s) \<subseteq> set s"
proof -
  have "set (trim s) \<subseteq> set (dropWhile isSpace s)"
    unfolding trim_def using set_dropWhileD [of _ isSpace "rev (dropWhile isSpace s)"] by auto
  also have "\<dots> \<subseteq> set s" using set_dropWhileD [of _ isSpace s] by auto
  finally show ?thesis .
qed

lemma last_dropWhile_keep: "dropWhile P xs \<noteq> [] \<Longrightarrow> last (dropWhile P xs) = last xs"
  by (induction xs) (auto split: if_splits)

lemma trim_fixed:
  assumes "s \<noteq> []" and "\<not> isSpace (hd s)" and "\<not> isSpace (last s)"
  shows "trim s = s"
proof -
  have 1: "dropWhile isSpace s = s" using assms(2) by (simp add: dropWhile_eq_self_iff)
  have "hd (rev s) = last s" using assms(1) by (simp add: hd_rev)
  then have 2: "dropWhile isSpace (rev s) = rev s"
    using assms(3) by (simp add: dropWhile_eq_self_iff)
  show ?thesis by (simp add: trim_def 1 2)
qed

lemma trim_ends:
  assumes "trim s \<noteq> []"
  shows "\<not> isSpace (hd (trim s))" and "\<not> isSpace (last (trim s))"
proof -
  let ?a = "dropWhile isSpace s"
  let ?b = "dropWhile isSpace (rev ?a)"
  have b: "?b \<noteq> []" using assms by (simp add: trim_def)
  then have hb: "\<not> isSpace (hd ?b)" by (rule hd_dropWhile)
  then show "\<not> isSpace (last (trim s))" using b by (simp add: trim_def last_rev)
  have a: "?a \<noteq> []"
  proof
    assume e: "?a = []"
    have "?b = []" unfolding e by simp
    with b show False by contradiction
  qed
  then have ha: "\<not> isSpace (hd ?a)" by (rule hd_dropWhile)
  have "hd (trim s) = last ?b" using b by (simp add: trim_def hd_rev)
  also have "\<dots> = last (rev ?a)" using b by (rule last_dropWhile_keep)
  also have "\<dots> = hd ?a" using a by (simp add: last_rev)
  finally show "\<not> isSpace (hd (trim s))" using ha by simp
qed

lemma trim_trim: "trim (trim s) = trim s"
proof (cases "trim s = []")
  case True
  then show ?thesis by (simp add: trim_Nil)
next
  case False
  then show ?thesis using trim_ends [of s] by (intro trim_fixed) auto
qed

lemma map_trim_split_space:
  assumes "isSpace c" and "c \<noteq> sep"
  shows "map trim (str_split sep (c # s)) = map trim (str_split sep s)"
proof -
  obtain w ws where ws: "str_split sep s = w # ws"
    using str_split_not_Nil [of sep s] by (cases "str_split sep s") auto
  then show ?thesis using assms by (simp add: trim_space_Cons)
qed

subsection \<open>Image candidates\<close>

lemma parseCandidate_ok:
  assumes "t \<noteq> []" and "\<not> isSpace (hd t)" and "CHR '','' \<notin> set t"
  shows "candidateOk (parseCandidate t)"
proof -
  obtain x xs where t: "t = x # xs" using assms(1) by (cases t) auto
  have 1: "takeWhile (\<lambda>x. \<not> isSpace x) t \<noteq> []" using assms(2) t by simp
  have 2: "\<forall>y \<in> set (takeWhile (\<lambda>x. \<not> isSpace x) t). \<not> isSpace y \<and> y \<noteq> CHR '',''"
    using assms(3) by (auto dest: set_takeWhileD)
  have "set (trim (dropWhile (\<lambda>x. \<not> isSpace x) t)) \<subseteq> set t"
    using set_trim [of "dropWhile (\<lambda>x. \<not> isSpace x) t"] set_dropWhileD [of _ "\<lambda>x. \<not> isSpace x" t]
    by auto
  then have 3: "CHR '','' \<notin> set (trim (dropWhile (\<lambda>x. \<not> isSpace x) t))"
    using assms(3) by auto
  show ?thesis
    using 1 2 3 by (simp add: candidateOk_def parseCandidate_def trim_trim)
qed

lemma parseSrcset_ok: "c \<in> set (parseSrcset v) \<Longrightarrow> candidateOk c"
proof -
  assume "c \<in> set (parseSrcset v)"
  then obtain piece where p: "piece \<in> set (str_split (CHR '','') v)" "trim piece \<noteq> []"
    "c = parseCandidate (trim piece)"
    by (auto simp: parseSrcset_def)
  have "CHR '','' \<notin> set piece" using p(1) by (rule str_split_pieces)
  then have "CHR '','' \<notin> set (trim piece)" using set_trim [of piece] by auto
  with p(2,3) trim_ends(1) [of piece] show ?thesis by (simp add: parseCandidate_ok)
qed

lemma stringifyCandidate_props:
  assumes "candidateOk c"
  shows "stringifyCandidate c \<noteq> []" and "trim (stringifyCandidate c) = stringifyCandidate c"
    and "CHR '','' \<notin> set (stringifyCandidate c)"
    and "parseCandidate (stringifyCandidate c) = c"
proof -
  obtain u d where c: "c = (u, d)" by (cases c)
  from assms c have u: "u \<noteq> []" "\<forall>x \<in> set u. \<not> isSpace x \<and> x \<noteq> CHR '',''"
    and d: "CHR '','' \<notin> set d" "trim d = d"
    by (simp_all add: candidateOk_def)
  have sp: "isSpace (CHR '' '')" by (simp add: isSpace_def)
  show ne: "stringifyCandidate c \<noteq> []" using u c by (simp add: stringifyCandidate_def)
  show "CHR '','' \<notin> set (stringifyCandidate c)"
    using u d c by (auto simp: stringifyCandidate_def)
  have hd: "\<not> isSpace (hd (stringifyCandidate c))"
    using u c by (cases u) (auto simp: stringifyCandidate_def)
  have lst: "\<not> isSpace (last (stringifyCandidate c))"
  proof (cases "d = []")
    case True
    then show ?thesis using u c by (simp add: stringifyCandidate_def)
  next
    case False
    then have "\<not> isSpace (last d)" using trim_ends(2) [of d] d(2) by simp
    then show ?thesis using False c by (simp add: stringifyCandidate_def)
  qed
  show "trim (stringifyCandidate c) = stringifyCandidate c"
    using ne hd lst by (rule trim_fixed)
  show "parseCandidate (stringifyCandidate c) = c"
  proof (cases "d = []")
    case True
    have tw: "takeWhile (\<lambda>x. \<not> isSpace x) u = u"
      using u(2) by (simp add: takeWhile_eq_all_conv)
    have dw: "dropWhile (\<lambda>x. \<not> isSpace x) u = []"
      using u(2) by (simp add: dropWhile_eq_Nil_conv)
    show ?thesis
      by (simp add: c True stringifyCandidate_def parseCandidate_def tw dw trim_Nil)
  next
    case False
    have tw: "takeWhile (\<lambda>x. \<not> isSpace x) (u @ CHR '' '' # d) = u"
      using u(2) sp by (simp add: takeWhile_append2)
    have dw: "dropWhile (\<lambda>x. \<not> isSpace x) (u @ CHR '' '' # d) = CHR '' '' # d"
      using u(2) sp by (simp add: dropWhile_append2)
    show ?thesis using False sp
      by (simp add: c stringifyCandidate_def parseCandidate_def tw dw trim_space_Cons d(2))
  qed
qed

lemma split_stringify:
  assumes "list_all candidateOk cs" and "cs \<noteq> []"
  shows "map trim (str_split (CHR '','') (stringifySrcset cs)) = map stringifyCandidate cs"
  using assms
proof (induction cs)
  case Nil
  then show ?case by simp
next
  case (Cons c cs)
  then have ok: "candidateOk c" and oks: "list_all candidateOk cs" by simp_all
  note props = stringifyCandidate_props [OF ok]
  show ?case
  proof (cases cs)
    case Nil
    then show ?thesis using props by (simp add: stringifySrcset_def str_split_no_sep)
  next
    case (Cons c' cs')
    then have e: "stringifySrcset (c # cs)
        = stringifyCandidate c @ CHR '','' # CHR '' '' # stringifySrcset cs"
      by (simp add: stringifySrcset_def)
    have "str_split (CHR '','') (stringifyCandidate c @ CHR '','' # CHR '' '' # stringifySrcset cs)
        = stringifyCandidate c # str_split (CHR '','') (CHR '' '' # stringifySrcset cs)"
      using props(3) by (rule str_split_append)
    moreover have "map trim (str_split (CHR '','') (CHR '' '' # stringifySrcset cs))
        = map trim (str_split (CHR '','') (stringifySrcset cs))"
      by (rule map_trim_split_space) (simp_all add: isSpace_def)
    ultimately have "map trim (str_split (CHR '','') (stringifySrcset (c # cs)))
        = stringifyCandidate c # map trim (str_split (CHR '','') (stringifySrcset cs))"
      using props(2) e by simp
    moreover have "map trim (str_split (CHR '','') (stringifySrcset cs)) = map stringifyCandidate cs"
      using Cons.IH oks Cons by simp
    ultimately show ?thesis by simp
  qed
qed

lemma parse_stringify:
  assumes "list_all candidateOk cs"
  shows "parseSrcset (stringifySrcset cs) = cs"
proof (cases "cs = []")
  case True
  then show ?thesis by (simp add: parseSrcset_def stringifySrcset_def trim_Nil)
next
  case False
  have "filter (\<lambda>c. c \<noteq> []) (map stringifyCandidate cs) = map stringifyCandidate cs"
    using assms stringifyCandidate_props(1) by (auto simp: filter_id_conv list_all_iff)
  moreover have "map parseCandidate (map stringifyCandidate cs) = cs"
    using assms stringifyCandidate_props(4) by (simp add: list_all_iff map_idI)
  ultimately show ?thesis
    using split_stringify [OF assms False] by (simp add: parseSrcset_def)
qed

lemma sanitizeSrcset_parse:
  assumes "sanitizeSrcset v = Some w"
  shows "parseSrcset w = filter (\<lambda>c. \<not> naughtyHref (fst c)) (parseSrcset v)"
    and "filter (\<lambda>c. \<not> naughtyHref (fst c)) (parseSrcset v) \<noteq> []"
proof -
  let ?p = "filter (\<lambda>c. \<not> naughtyHref (fst c)) (parseSrcset v)"
  from assms show ne: "?p \<noteq> []" by (auto simp: sanitizeSrcset_def Let_def split: if_splits)
  from assms ne have w: "w = stringifySrcset ?p" by (simp add: sanitizeSrcset_def Let_def)
  have "list_all candidateOk ?p" using parseSrcset_ok by (auto simp: list_all_iff)
  then show "parseSrcset w = ?p" unfolding w by (rule parse_stringify)
qed

lemma sanitizeSrcset_idem: "sanitizeSrcset v = Some w \<Longrightarrow> sanitizeSrcset w = Some w"
proof -
  assume a: "sanitizeSrcset v = Some w"
  let ?p = "filter (\<lambda>c. \<not> naughtyHref (fst c)) (parseSrcset v)"
  have w: "w = stringifySrcset ?p"
    using a sanitizeSrcset_parse(2) [OF a] by (simp add: sanitizeSrcset_def Let_def)
  have "filter (\<lambda>c. \<not> naughtyHref (fst c)) (parseSrcset w) = ?p"
    by (simp add: sanitizeSrcset_parse(1) [OF a])
  then show ?thesis using sanitizeSrcset_parse(2) [OF a] w
    by (simp add: sanitizeSrcset_def Let_def)
qed

lemma elementsOf_Nil: "elementsOf [] = []"
  by (simp add: elementsOf_def)

lemma elementsOf_Cons: "elementsOf (n # ns) = elements n @ elementsOf ns"
  by (simp add: elementsOf_def)

lemma elementsOf_append: "elementsOf (xs @ ys) = elementsOf xs @ elementsOf ys"
  by (simp add: elementsOf_def)

lemma elementsOf_concat: "elementsOf (concat xss) = concat (map elementsOf xss)"
  by (induction xss) (simp_all add: elementsOf_Nil elementsOf_append)

lemma forbidden_tags:
  "''script'' \<notin> set ALLOWED_TAGS" "''style'' \<notin> set ALLOWED_TAGS" "''iframe'' \<notin> set ALLOWED_TAGS"
  by (simp_all add: ALLOWED_TAGS_def)

lemma map_of_concat: "map_of al t = Some names \<Longrightarrow> a \<in> set names \<Longrightarrow> a \<in> set (concat (map snd al))"
  by (induction al) (auto split: if_splits)

lemma no_handler_in_table:
  "list_all (\<lambda>a. \<not> startsWith (toLowerCase a) ''on'') (concat (map snd ALLOWED_ATTR))"
  by (simp add: ALLOWED_ATTR_def startsWith_def toLowerCase_def)

lemma no_handler_attribute:
  assumes "a \<in> set (allowedAttributes t)"
  shows "\<not> startsWith (toLowerCase a) ''on''"
proof -
  from assms obtain names where "map_of ALLOWED_ATTR t = Some names" "a \<in> set names"
    by (cases "map_of ALLOWED_ATTR t") (auto simp: allowedAttributes_def)
  then have "a \<in> set (concat (map snd ALLOWED_ATTR))" by (rule map_of_concat)
  then show ?thesis using no_handler_in_table by (simp only: list_all_iff) blast
qed

lemma not_naughty:
  "\<not> naughtyHref u \<Longrightarrow>
   urlScheme u = None \<or> urlScheme u = Some ''http'' \<or> urlScheme u = Some ''https''
   \<or> urlScheme u = Some ''mailto''"
  by (auto simp: naughtyHref_def allowedSchemes_def split: option.splits)

lemma sanitizeAttrib_Some:
  assumes "sanitizeAttrib t (a, v0) = Some (a', v)"
  shows "a' = a" and "a \<in> set (allowedAttributes t)"
    and "\<forall>u \<in> set (attributeUrls (a, v)). \<not> naughtyHref u"
    and "sanitizeAttrib t (a, v) = Some (a, v)"
proof -
  from assms show 1: "a' = a" and 2: "a \<in> set (allowedAttributes t)"
    by (auto simp: sanitizeAttrib_def split: if_splits)
  show "\<forall>u \<in> set (attributeUrls (a, v)). \<not> naughtyHref u"
  proof (cases "a = ''srcset''")
    case True
    with assms have "sanitizeSrcset v0 = Some v"
      by (auto simp: sanitizeAttrib_def schemeAttributes_def split: if_splits)
    from sanitizeSrcset_parse(1) [OF this] show ?thesis
      using True by (auto simp: attributeUrls_def)
  next
    case False
    with assms show ?thesis
      by (auto simp: sanitizeAttrib_def attributeUrls_def split: if_splits)
  qed
  show "sanitizeAttrib t (a, v) = Some (a, v)"
  proof (cases "a = ''srcset''")
    case True
    with assms have "sanitizeSrcset v0 = Some v"
      by (auto simp: sanitizeAttrib_def schemeAttributes_def split: if_splits)
    from sanitizeSrcset_idem [OF this] show ?thesis
      using True 2 by (simp add: sanitizeAttrib_def schemeAttributes_def)
  next
    case False
    with assms show ?thesis
      by (auto simp: sanitizeAttrib_def split: if_splits)
  qed
qed

lemma set_map_filter_iff: "y \<in> set (List.map_filter f xs) \<longleftrightarrow> (\<exists>x \<in> set xs. f x = Some y)"
  by (induction xs) (auto split: option.splits)

lemma sanitizeAttribs_mem:
  "(a, v) \<in> set (sanitizeAttribs t attribs) \<Longrightarrow>
   \<exists>v0. (a, v0) \<in> set attribs \<and> sanitizeAttrib t (a, v0) = Some (a, v)"
proof -
  assume "(a, v) \<in> set (sanitizeAttribs t attribs)"
  then obtain a0 v0 where m: "(a0, v0) \<in> set attribs" "sanitizeAttrib t (a0, v0) = Some (a, v)"
    by (auto simp: sanitizeAttribs_def set_map_filter_iff)
  from sanitizeAttrib_Some(1) [OF m(2)] m show ?thesis by auto
qed

lemma sanitized_element_safe:
  assumes "t \<in> set ALLOWED_TAGS"
  shows "safeElement (t, sanitizeAttribs t attribs)"
proof -
  have a: "a \<in> set (allowedAttributes t) \<and> \<not> startsWith (toLowerCase a) ''on''
        \<and> (\<forall>u \<in> set (attributeUrls (a, v)).
              urlScheme u = None \<or> urlScheme u = Some ''http''
              \<or> urlScheme u = Some ''https'' \<or> urlScheme u = Some ''mailto'')"
    if "(a, v) \<in> set (sanitizeAttribs t attribs)" for a v
  proof -
    from sanitizeAttribs_mem [OF that] obtain v0 where
      s: "sanitizeAttrib t (a, v0) = Some (a, v)" by blast
    from sanitizeAttrib_Some(2,3) [OF s] show ?thesis
      using no_handler_attribute not_naughty by blast
  qed
  have t: "t \<notin> {''script'', ''style'', ''iframe''}" using assms forbidden_tags by auto
  show ?thesis unfolding safeElement_def using assms t a by blast
qed

lemma sanitizeNode_safe:
  "e \<in> set (elementsOf (sanitizeNode hp pkg n)) \<Longrightarrow> safeElement e"
proof (induction hp pkg n arbitrary: e rule: sanitizeNode.induct)
  case (1 hp pkg s)
  then show ?case by (simp add: elementsOf_Cons elementsOf_Nil)
next
  case (2 hp pkg t attribs children)
  have kids: "safeElement e"
    if "e \<in> set (elementsOf (concat (map (sanitizeNode hp pkg) children)))"
  proof -
    from that obtain c where c: "c \<in> set children" "e \<in> set (elementsOf (sanitizeNode hp pkg c))"
      by (auto simp: elementsOf_concat)
    show ?thesis
    proof (cases "t \<in> set ALLOWED_TAGS")
      case True
      with c "2.IH"(1) show ?thesis by blast
    next
      case False
      show ?thesis
      proof (cases "t \<in> set nonTextTags")
        case True
        with 2 False show ?thesis by (simp add: elementsOf_Nil)
      next
        case nt: False
        with False c "2.IH"(2) show ?thesis by blast
      qed
    qed
  qed
  show ?case
  proof (cases "t \<in> set ALLOWED_TAGS")
    case True
    with "2.prems" have "e = (t, sanitizeAttribs t (transformTags hp pkg t attribs))
        \<or> e \<in> set (elementsOf (concat (map (sanitizeNode hp pkg) children)))"
      by (simp add: elementsOf_Cons elementsOf_Nil elementsOf_def)
    then show ?thesis using kids sanitized_element_safe [OF True] by auto
  next
    case False
    with "2.prems" kids show ?thesis by (auto simp: elementsOf_Nil split: if_splits)
  qed
qed

text \<open>
  Claim C1. For every input document, every element of the sanitizer's output has a tag of
  the allow-list, so none is a \<open>script\<close>, \<open>style\<close> or \<open>iframe\<close> element; every attribute
  it keeps is on the allow-list of its tag and none is an event handler (a name starting
  with \<open>on\<close>); and every URL that survives in \<open>href\<close>, \<open>src\<close> or a \<open>srcset\<close> candidate
  either has no scheme (a relative or protocol-relative URL, a fragment) or has the scheme
  \<open>http\<close>, \<open>https\<close> or \<open>mailto\<close>: any other scheme, \<open>javascript:\<close> and \<open>data:\<close> included,
  is stripped. In particular \<open><script>alert(1)</script>\<close> yields an output without
  \<open>script\<close> element (the empty output).
\<close>

theorem sanitizeHtml_safe:
  "(\<forall>(t, attribs) \<in> set (elementsOf (sanitizeHtml hasProtocol pkg nodes)).
      t \<in> set ALLOWED_TAGS \<and> t \<notin> {''script'', ''style'', ''iframe''}
      \<and> (\<forall>(a, v) \<in> set attribs.
            a \<in> set (allowedAttributes t) \<and> \<not> startsWith (toLowerCase a) ''on''
            \<and> (\<forall>u \<in> set (attributeUrls (a, v)).
                  urlScheme u = None \<or> urlScheme u = Some ''http''
                  \<or> urlScheme u = Some ''https'' \<or> urlScheme u = Some ''mailto'')))
   \<and> sanitizeHtml hasProtocol pkg [Element ''script'' [] [Text ''alert(1)'']] = []"
proof -
  have "safeElement e" if "e \<in> set (elementsOf (sanitizeHtml hasProtocol pkg nodes))" for e
  proof -
    from that obtain n where "n \<in> set nodes" "e \<in> set (elementsOf (sanitizeNode hasProtocol pkg n))"
      by (auto simp: sanitizeHtml_def elementsOf_concat)
    then show ?thesis using sanitizeNode_safe by blast
  qed
  moreover have "sanitizeHtml hasProtocol pkg [Element ''script'' [] [Text ''alert(1)'']] = []"
    by (simp add: sanitizeHtml_def ALLOWED_TAGS_def nonTextTags_def)
  ultimately show ?thesis by (auto simp: safeElement_def)
qed

theorem sanitizeHtml_safe_witness:
  "sanitizeHtml (\<lambda>u. True) ''foo''
     [Element ''p'' [(''onclick'', ''steal()'')]
        [Element ''script'' [] [Text ''alert(1)''],
         Element ''a'' [(''href'', ''JavaScript:alert(1)''), (''title'', ''t'')] [Text ''x''],
         Element ''iframe'' [(''src'', ''https://evil.example/'')] [],
         Element ''a'' [(''href'', ''mailto:user@example.com'')] [Text ''mail''],
         Element ''source'' [(''srcset'', ''a.png 1x,data:image/png;base64 2x'')] []]]
   = [Element ''p'' []
        [Element ''a'' [(''title'', ''t''), (''rel'', ''nofollow noreferrer noopener''),
                        (''target'', ''_blank'')] [Text ''x''],
         Element ''a'' [(''href'', ''mailto:user@example.com''),
                        (''rel'', ''nofollow noreferrer noopener''), (''target'', ''_blank'')]
           [Text ''mail''],
         Element ''source'' [(''srcset'', ''a.png 1x'')] []]]"
  using sanitizeHtml_safe [of "\<lambda>u. True" "''foo''"
     "[Element ''p'' [(''onclick'', ''steal()'')]
        [Element ''script'' [] [Text ''alert(1)''],
         Element ''a'' [(''href'', ''JavaScript:alert(1)''), (''title'', ''t'')] [Text ''x''],
         Element ''iframe'' [(''src'', ''https://evil.example/'')] [],
         Element ''a'' [(''href'', ''mailto:user@example.com'')] [Text ''mail''],
         Element ''source'' [(''srcset'', ''a.png 1x,data:image/png;base64 2x'')] []]]"]
  by code_simp

lemma resolveUrl_passThrough: "u \<noteq> [] \<Longrightarrow> passThrough (resolveUrl u p)"
  by (auto simp: resolveUrl_def passThrough_def startsWith_def)

lemma passThrough_fixed: "passThrough r \<Longrightarrow> resolveUrl r p = r"
  by (auto simp: resolveUrl_def passThrough_def)

lemma replace_passThrough:
  assumes "passThrough r"
  shows "passThrough (str_replace r ''/blob/'' ''/raw/'')"
proof -
  consider "startsWith r ''#''" | "startsWith r ''http://''" | "startsWith r ''https://''"
    | "startsWith r ''//''"
    using assms by (auto simp: passThrough_def)
  then show ?thesis
  proof cases
    case 1
    then obtain x where "r = ''#'' @ x" by (auto simp: startsWith_def prefix_def)
    then show ?thesis by (simp add: passThrough_def startsWith_def)
  next
    case 2
    then obtain x where "r = ''http://'' @ x" by (auto simp: startsWith_def prefix_def)
    then show ?thesis by (simp add: passThrough_def startsWith_def)
  next
    case 3
    then obtain x where "r = ''https://'' @ x" by (auto simp: startsWith_def prefix_def)
    then show ?thesis by (simp add: passThrough_def startsWith_def)
  next
    case 4
    then obtain x where "r = ''//'' @ x" by (auto simp: startsWith_def prefix_def)
    then show ?thesis by (simp add: passThrough_def startsWith_def)
  qed
qed

lemma resolveImageUrl_fixed:
  "resolveUrl v p = v \<Longrightarrow> \<not> (str_includes v ''github.com'' \<and> str_includes v ''/blob/'')
   \<Longrightarrow> resolveImageUrl v p = v"
  by (auto simp: resolveImageUrl_def Let_def)

lemma resolveImageUrl_settled:
  assumes "u \<noteq> []"
    and "\<not> (str_includes (resolveImageUrl u p) ''github.com''
             \<and> str_includes (resolveImageUrl u p) ''/blob/'')"
  shows "resolveImageUrl (resolveImageUrl u p) p = resolveImageUrl u p"
proof -
  have "passThrough (resolveImageUrl u p)"
    using resolveUrl_passThrough [OF assms(1), of p] replace_passThrough
    by (simp add: resolveImageUrl_def Let_def)
  then have "resolveUrl (resolveImageUrl u p) p = resolveImageUrl u p"
    by (rule passThrough_fixed)
  then show ?thesis using assms(2) by (rule resolveImageUrl_fixed)
qed

subsection \<open>Attribute lists\<close>

lemma map_filter_idem:
  assumes "\<And>x y. f x = Some y \<Longrightarrow> f y = Some y"
  shows "List.map_filter f (List.map_filter f xs) = List.map_filter f xs"
  using assms by (induction xs) (auto split: option.splits)

lemma sanitizeAttribs_idem: "sanitizeAttribs t (sanitizeAttribs t attribs) = sanitizeAttribs t attribs"
  unfolding sanitizeAttribs_def
proof (rule map_filter_idem)
  fix x y assume a: "sanitizeAttrib t x = Some y"
  obtain k v0 where x: "x = (k, v0)" by (cases x)
  obtain k' v where y: "y = (k', v)" by (cases y)
  from a have s: "sanitizeAttrib t (k, v0) = Some (k', v)" by (simp add: x y)
  have "k' = k" using s by (rule sanitizeAttrib_Some(1))
  moreover have "sanitizeAttrib t (k, v) = Some (k, v)" using s by (rule sanitizeAttrib_Some(4))
  ultimately show "sanitizeAttrib t y = Some y" by (simp add: y)
qed

lemma map_of_map_filter:
  assumes "\<And>k v y. f (k, v) = Some y \<Longrightarrow> fst y = k"
    and "map_of al k = Some v" and "f (k, v) = Some (k, w)"
  shows "map_of (List.map_filter f al) k = Some w"
  using assms(2)
proof (induction al)
  case Nil
  then show ?case by simp
next
  case (Cons x al)
  obtain k' v' where x: "x = (k', v')" by (cases x)
  show ?case
  proof (cases "k' = k")
    case True
    with Cons.prems x have "v' = v" by simp
    with True x assms(3) show ?thesis by simp
  next
    case False
    with Cons x have IH: "map_of (List.map_filter f al) k = Some w" by simp
    show ?thesis
    proof (cases "f x")
      case None
      then show ?thesis using IH by simp
    next
      case (Some y)
      with assms(1) [of k' v' y] x have "fst y = k'" by simp
      with Some False IH show ?thesis by (cases y) simp
    qed
  qed
qed

lemma sanitizeAttrib_key: "sanitizeAttrib t (k, v) = Some y \<Longrightarrow> fst y = k"
  using sanitizeAttrib_Some(1) [of t k v "fst y" "snd y"] by simp

lemma update_other_mem:
  "(k, v) \<in> set (AList.update k' v' al) \<Longrightarrow> k \<noteq> k' \<Longrightarrow> (k, v) \<in> set al"
  by (induction al) (auto split: if_splits)

lemma keep_rel:
  "sanitizeAttrib ''a'' (''rel'', ''nofollow noreferrer noopener'')
     = Some (''rel'', ''nofollow noreferrer noopener'')"
  by (simp add: sanitizeAttrib_def allowedAttributes_def ALLOWED_ATTR_def schemeAttributes_def)

lemma keep_target:
  "sanitizeAttrib ''a'' (''target'', ''_blank'') = Some (''target'', ''_blank'')"
  by (simp add: sanitizeAttrib_def allowedAttributes_def ALLOWED_ATTR_def schemeAttributes_def)

lemma transformA_fixed:
  assumes "distinct (map fst attribs)"
  shows "transformA hp (sanitizeAttribs ''a'' (transformA hp attribs))
           = sanitizeAttribs ''a'' (transformA hp attribs)"
proof -
  define X where "X = transformA hp attribs"
  define out where "out = sanitizeAttribs ''a'' X"
  have goal: "transformA hp out = out"
  proof (cases "map_of out ''href''")
    case None
    then show ?thesis by (simp add: transformA_def)
  next
    case (Some h)
    show ?thesis
    proof (cases "h \<noteq> [] \<and> hp h")
      case False
      with Some show ?thesis by (auto simp: transformA_def)
    next
      case True
      from Some have "(''href'', h) \<in> set out" by (rule map_of_SomeD)
      then obtain v0 where v0: "(''href'', v0) \<in> set X"
          "sanitizeAttrib ''a'' (''href'', v0) = Some (''href'', h)"
        unfolding out_def using sanitizeAttribs_mem by blast
      from v0(2) have "v0 = h" by (auto simp: sanitizeAttrib_def split: if_splits)
      with v0(1) have hX: "(''href'', h) \<in> set X" by simp
      have "(''href'', h) \<in> set attribs"
      proof (cases "X = attribs")
        case True
        with hX show ?thesis by simp
      next
        case False
        then have "X = AList.update ''target'' ''_blank''
                 (AList.update ''rel'' ''nofollow noreferrer noopener'' attribs)"
          by (auto simp: X_def transformA_def split: option.splits if_splits)
        with hX have "(''href'', h) \<in> set (AList.update ''rel'' ''nofollow noreferrer noopener'' attribs)"
          using update_other_mem [of "''href''" h "''target''"] by simp
        then show ?thesis using update_other_mem [of "''href''" h "''rel''"] by simp
      qed
      with assms have m: "map_of attribs ''href'' = Some h" by simp
      with True have XU: "X = AList.update ''target'' ''_blank''
                 (AList.update ''rel'' ''nofollow noreferrer noopener'' attribs)"
        by (simp add: X_def transformA_def)
      have rel: "map_of X ''rel'' = Some ''nofollow noreferrer noopener''"
        and target: "map_of X ''target'' = Some ''_blank''"
        unfolding XU by (simp_all add: update_conv')
      have r: "map_of out ''rel'' = Some ''nofollow noreferrer noopener''"
        unfolding out_def sanitizeAttribs_def
        using sanitizeAttrib_key rel keep_rel by (rule map_of_map_filter)
      have t: "map_of out ''target'' = Some ''_blank''"
        unfolding out_def sanitizeAttribs_def
        using sanitizeAttrib_key target keep_target by (rule map_of_map_filter)
      have 1: "AList.update ''rel'' ''nofollow noreferrer noopener'' out = out"
        using r by (rule update_triv)
      have 2: "AList.update ''target'' ''_blank'' out = out"
        using t by (rule update_triv)
      show ?thesis using Some True by (simp add: transformA_def 1 2)
    qed
  qed
  then show ?thesis by (simp add: out_def X_def)
qed

lemma transformImg_fixed:
  assumes "\<forall>(a, v) \<in> set attribs. a = ''src'' \<longrightarrow> resolveImageUrl v p = v"
  shows "transformImg p attribs = attribs"
proof (cases "map_of attribs ''src''")
  case None
  then show ?thesis by (simp add: transformImg_def)
next
  case (Some v)
  then have "(''src'', v) \<in> set attribs" by (rule map_of_SomeD)
  with assms have "resolveImageUrl v p = v" by auto
  with Some show ?thesis by (simp add: transformImg_def update_triv)
qed

lemma passThrough_resolveImageUrl: "u \<noteq> [] \<Longrightarrow> passThrough (resolveImageUrl u p)"
  using resolveUrl_passThrough [of u p] replace_passThrough
  by (simp add: resolveImageUrl_def Let_def)

lemma img_src_settled:
  assumes "distinct (map fst attribs)"
    and "(''src'', v) \<in> set (sanitizeAttribs ''img'' (transformImg p attribs))"
  shows "resolveUrl v p = v"
proof -
  from assms(2) obtain v0 where v0: "(''src'', v0) \<in> set (transformImg p attribs)"
      "sanitizeAttrib ''img'' (''src'', v0) = Some (''src'', v)"
    using sanitizeAttribs_mem by blast
  from v0(2) have "v0 = v" by (auto simp: sanitizeAttrib_def split: if_splits)
  with v0(1) have mem: "(''src'', v) \<in> set (transformImg p attribs)" by simp
  have "v = [] \<or> passThrough v"
  proof (cases "map_of attribs ''src''")
    case None
    with mem have "(''src'', v) \<in> set attribs" by (simp add: transformImg_def)
    with assms(1) None show ?thesis by simp
  next
    case (Some s)
    show ?thesis
    proof (cases "s = []")
      case True
      with Some mem have "(''src'', v) \<in> set attribs" by (simp add: transformImg_def)
      with assms(1) Some True show ?thesis by simp
    next
      case False
      let ?U = "AList.update ''src'' (resolveImageUrl s p) attribs"
      from Some False mem have "(''src'', v) \<in> set ?U" by (simp add: transformImg_def)
      moreover have "distinct (map fst ?U)" using assms(1) by (rule distinct_update)
      ultimately have "map_of ?U ''src'' = Some v" by simp
      then have "v = resolveImageUrl s p" by (simp add: update_conv')
      then show ?thesis using passThrough_resolveImageUrl [OF False] by simp
    qed
  qed
  then show ?thesis
  proof
    assume "v = []"
    then show ?thesis by (simp add: resolveUrl_def)
  next
    assume "passThrough v"
    then show ?thesis by (rule passThrough_fixed)
  qed
qed

lemma transformTags_fixed:
  assumes "distinct (map fst attribs)"
    and "t = ''img'' \<longrightarrow>
         (\<forall>(a, v) \<in> set (sanitizeAttribs t (transformTags hp p t attribs)).
            a = ''src'' \<longrightarrow> \<not> (str_includes v ''github.com'' \<and> str_includes v ''/blob/''))"
  shows "transformTags hp p t (sanitizeAttribs t (transformTags hp p t attribs))
           = sanitizeAttribs t (transformTags hp p t attribs)"
proof -
  consider "t = ''img''" | "t \<noteq> ''img''" "t = ''a''" | "t \<noteq> ''img''" "t \<noteq> ''a''" by blast
  then show ?thesis
  proof cases
    case 1
    let ?out = "sanitizeAttribs ''img'' (transformImg p attribs)"
    have "\<forall>(a, v) \<in> set ?out. a = ''src'' \<longrightarrow> resolveImageUrl v p = v"
    proof -
      have "resolveImageUrl v p = v" if "(''src'', v) \<in> set ?out" for v
      proof -
        have "resolveUrl v p = v" using assms(1) that by (rule img_src_settled)
        moreover have "\<not> (str_includes v ''github.com'' \<and> str_includes v ''/blob/'')"
          using assms(2) 1 that by (auto simp: transformTags_def)
        ultimately show ?thesis by (rule resolveImageUrl_fixed)
      qed
      then show ?thesis by auto
    qed
    then have "transformImg p ?out = ?out" by (rule transformImg_fixed)
    with 1 show ?thesis by (simp add: transformTags_def)
  next
    case 2
    then show ?thesis using transformA_fixed [OF assms(1)] by (simp add: transformTags_def)
  next
    case 3
    then show ?thesis by (simp add: transformTags_def)
  qed
qed

subsection \<open>The second pass\<close>

lemma sanitizeHtml_Nil: "sanitizeHtml hp p [] = []"
  by (simp add: sanitizeHtml_def)

lemma sanitizeHtml_single: "sanitizeHtml hp p [n] = sanitizeNode hp p n"
  by (simp add: sanitizeHtml_def)

lemma sanitizeHtml_append: "sanitizeHtml hp p (xs @ ys) = sanitizeHtml hp p xs @ sanitizeHtml hp p ys"
  by (simp add: sanitizeHtml_def)

lemma sanitizeHtml_concat:
  "sanitizeHtml hp p (concat xss) = concat (map (sanitizeHtml hp p) xss)"
  by (induction xss) (simp_all add: sanitizeHtml_Nil sanitizeHtml_append)

lemma blobFree_append: "blobFree (xs @ ys) \<longleftrightarrow> blobFree xs \<and> blobFree ys"
  by (auto simp: blobFree_def elementsOf_append)

lemma blobFree_Nil: "blobFree []"
  by (simp add: blobFree_def elementsOf_Nil)

lemma blobFree_concat: "blobFree (concat xss) \<longleftrightarrow> (\<forall>xs \<in> set xss. blobFree xs)"
  by (induction xss) (simp_all add: blobFree_append blobFree_Nil)

lemma blobFree_Element:
  "blobFree [Element t attribs kids] \<longleftrightarrow>
     (t = ''img'' \<longrightarrow> (\<forall>(a, v) \<in> set attribs.
        a = ''src'' \<longrightarrow> \<not> (str_includes v ''github.com'' \<and> str_includes v ''/blob/'')))
     \<and> blobFree kids"
  by (auto simp: blobFree_def elementsOf_def)

lemma sanitizeNode_idem:
  "wellFormed n \<Longrightarrow> blobFree (sanitizeNode hp p n) \<Longrightarrow>
   sanitizeHtml hp p (sanitizeNode hp p n) = sanitizeNode hp p n"
proof (induction hp p n rule: sanitizeNode.induct)
  case (1 hp p s)
  then show ?case by (simp add: sanitizeHtml_def)
next
  case (2 hp p t attribs children)
  let ?kids = "concat (map (sanitizeNode hp p) children)"
  from "2.prems"(1) have d: "distinct (map fst attribs)"
    and wf: "\<forall>c \<in> set children. wellFormed c"
    by (simp_all add: list_all_iff)
  show ?case
  proof (cases "t \<in> set ALLOWED_TAGS")
    case True
    let ?out = "sanitizeAttribs t (transformTags hp p t attribs)"
    from True "2.prems"(2) have bf: "blobFree [Element t ?out ?kids]" by simp
    then have bk: "\<forall>c \<in> set children. blobFree (sanitizeNode hp p c)"
      by (simp add: blobFree_Element blobFree_concat)
    have "sanitizeHtml hp p (sanitizeNode hp p c) = sanitizeNode hp p c" if "c \<in> set children" for c
      using "2.IH"(1) [OF True that] wf bk that by blast
    then have kids: "sanitizeHtml hp p ?kids = ?kids"
      by (simp add: sanitizeHtml_concat cong: map_cong)
    have "transformTags hp p t ?out = ?out"
      using d bf by (intro transformTags_fixed) (simp_all add: blobFree_Element)
    then have "sanitizeAttribs t (transformTags hp p t ?out) = ?out"
      by (simp add: sanitizeAttribs_idem)
    with True kids show ?thesis
      by (simp add: sanitizeHtml_single) (simp add: sanitizeHtml_def)
  next
    case False
    show ?thesis
    proof (cases "t \<in> set nonTextTags")
      case True
      with False show ?thesis by (simp add: sanitizeHtml_Nil)
    next
      case nt: False
      from False nt "2.prems"(2) have "blobFree ?kids" by simp
      then have bk: "\<forall>c \<in> set children. blobFree (sanitizeNode hp p c)"
        by (simp add: blobFree_concat)
      have "sanitizeHtml hp p (sanitizeNode hp p c) = sanitizeNode hp p c" if "c \<in> set children" for c
        using "2.IH"(2) [OF False nt that] wf bk that by blast
      then have "sanitizeHtml hp p ?kids = ?kids"
        by (simp add: sanitizeHtml_concat cong: map_cong)
      with False nt show ?thesis by simp
    qed
  qed
qed

text \<open>
  Where no image source of the output would be rewritten again (none contains both
  \<open>github.com\<close> and \<open>/blob/\<close>), a second pass over the sanitizer's output returns it as it
  is: nothing further is stripped and neither transform changes an attribute.
\<close>

lemma sanitizeHtml_idempotent:
  assumes "list_all wellFormed nodes" and "blobFree (sanitizeHtml hasProtocol pkg nodes)"
  shows "sanitizeHtml hasProtocol pkg (sanitizeHtml hasProtocol pkg nodes)
           = sanitizeHtml hasProtocol pkg nodes"
proof -
  have "sanitizeHtml hasProtocol pkg (sanitizeNode hasProtocol pkg n) = sanitizeNode hasProtocol pkg n"
    if "n \<in> set nodes" for n
  proof (rule sanitizeNode_idem)
    show "wellFormed n" using assms(1) that by (simp add: list_all_iff)
    show "blobFree (sanitizeNode hasProtocol pkg n)"
      using assms(2) that by (simp add: sanitizeHtml_def blobFree_concat)
  qed
  then show ?thesis
    unfolding sanitizeHtml_def [of hasProtocol pkg nodes]
    by (simp add: sanitizeHtml_concat cong: map_cong)
qed

lemma sanitizeHtml_idempotent_example:
  "sanitizeHtml (\<lambda>u. True) ''nuxt''
     (sanitizeHtml (\<lambda>u. True) ''nuxt''
        [Element ''p'' [(''onclick'', ''x()'')]
           [Element ''img'' [(''src'', ''https://github.com/nuxt/nuxt/blob/main/.github/assets/banner.svg'')] [],
            Element ''a'' [(''href'', ''https://nuxt.com'')] [Text ''Nuxt''],
            Element ''script'' [] [Text ''alert(1)'']]])
   = [Element ''p'' []
        [Element ''img'' [(''src'', ''https://github.com/nuxt/nuxt/raw/main/.github/assets/banner.svg'')] [],
         Element ''a'' [(''href'', ''https://nuxt.com''), (''rel'', ''nofollow noreferrer noopener''),
                        (''target'', ''_blank'')] [Text ''Nuxt'']]]"
  using sanitizeHtml_idempotent [of
     "[Element ''p'' [(''onclick'', ''x()'')]
           [Element ''img'' [(''src'', ''https://github.com/nuxt/nuxt/blob/main/.github/assets/banner.svg'')] [],
            Element ''a'' [(''href'', ''https://nuxt.com'')] [Text ''Nuxt''],
            Element ''script'' [] [Text ''alert(1)'']]]" "\<lambda>u. True" "''nuxt''"]
  by code_simp

text \<open>
  Claim C9. Sanitization is idempotent on its own image: \<open>sanitize (sanitize x) = sanitize x\<close>
  for every fragment \<open>x\<close>, the transform passes of a second pass changing nothing. The code
  breaks this at image sources. \<open>resolveImageUrl\<close> replaces the first \<open>/blob/\<close> of a GitHub
  URL each time it is applied, and it is applied by \<open>renderer.image\<close> and again by
  \<open>transformTags.img\<close>: for \<open>https://github.com/o/r/blob/main/docs/blob/d.png\<close> the
  renderer emits the raw URL \<open>.../raw/main/docs/blob/d.png\<close>, as the comment above
  \<open>resolveImageUrl\<close> describes, and the sanitizer's transform turns that into
  \<open>.../raw/main/docs/raw/d.png\<close>, which names another file. A second sanitizer pass over
  the output of the first does the same.
\<close>

theorem resolveImageUrl_applied_twice:
  \<open>image ''foo'' ''https://github.com/o/r/blob/main/docs/blob/d.png'' None []
     = ''<img src="https://github.com/o/r/raw/main/docs/blob/d.png">''
   \<and> transformImg ''foo'' [(''src'', ''https://github.com/o/r/raw/main/docs/blob/d.png'')]
     = [(''src'', ''https://github.com/o/r/raw/main/docs/raw/d.png'')]
   \<and> sanitizeHtml (\<lambda>u. True) ''foo''
       [Element ''img'' [(''src'', ''https://github.com/o/r/blob/main/docs/blob/d.png'')] []]
     = [Element ''img'' [(''src'', ''https://github.com/o/r/raw/main/docs/blob/d.png'')] []]
   \<and> sanitizeHtml (\<lambda>u. True) ''foo''
       (sanitizeHtml (\<lambda>u. True) ''foo''
          [Element ''img'' [(''src'', ''https://github.com/o/r/blob/main/docs/blob/d.png'')] []])
     = [Element ''img'' [(''src'', ''https://github.com/o/r/raw/main/docs/raw/d.png'')] []]
   \<and> sanitizeHtml (\<lambda>u. True) ''foo''
       (sanitizeHtml (\<lambda>u. True) ''foo''
          [Element ''img'' [(''src'', ''https://github.com/o/r/blob/main/docs/blob/d.png'')] []])
     \<noteq> sanitizeHtml (\<lambda>u. True) ''foo''
          [Element ''img'' [(''src'', ''https://github.com/o/r/blob/main/docs/blob/d.png'')] []]\<close>
  by code_simp

section \<open>Version grouping: partition and order\<close>

subsection \<open>The comparator\<close>

lemma compare_not_Less: "compareVersions a b \<noteq> Less \<longleftrightarrow> precedence b \<le> precedence a"
  by (auto simp: compareVersions_def)

lemma compare_Greater: "compareVersions a b = Greater \<longleftrightarrow> precedence b < precedence a"
  by (auto simp: compareVersions_def)

lemma compare_Equal: "compareVersions a b = Equal \<longleftrightarrow> precedence a = precedence b"
  by (auto simp: compareVersions_def)

lemma same_precedence_same_key:
  "precedence a = precedence b \<Longrightarrow> getVersionGroupKey a = getVersionGroupKey b"
  by (simp add: precedence_def getVersionGroupKey_def Let_def)

subsection \<open>Sorting newest first\<close>

lemma mset_insertNewestFirst: "mset (insertNewestFirst v ws) = add_mset v (mset ws)"
  by (induction ws) auto

lemma mset_sortNewestFirst: "mset (sortNewestFirst vs) = mset vs"
  by (induction vs) (simp_all add: sortNewestFirst_def mset_insertNewestFirst)

lemma set_sortNewestFirst: "set (sortNewestFirst vs) = set vs"
  using mset_sortNewestFirst [of vs] by (metis set_mset_mset)

lemma set_insertNewestFirst: "set (insertNewestFirst v ws) = insert v (set ws)"
  using mset_insertNewestFirst [of v ws] by (metis set_mset_mset set_mset_add_mset_insert)

lemma sorted_insertNewestFirst:
  "sorted_wrt (\<lambda>a b. precedence b \<le> precedence a) ws \<Longrightarrow>
   sorted_wrt (\<lambda>a b. precedence b \<le> precedence a) (insertNewestFirst v ws)"
proof (induction ws)
  case Nil
  then show ?case by simp
next
  case (Cons w ws)
  show ?case
  proof (cases "compareVersions v w = Less")
    case True
    then have "precedence v \<le> precedence w" by (auto simp: compareVersions_def split: if_splits)
    with Cons True show ?thesis by (auto simp: set_insertNewestFirst)
  next
    case False
    then have "precedence w \<le> precedence v" by (simp add: compare_not_Less)
    with Cons False show ?thesis by auto
  qed
qed

lemma sorted_sortNewestFirst:
  "sorted_wrt (\<lambda>a b. precedence b \<le> precedence a) (sortNewestFirst vs)"
  by (induction vs) (simp_all add: sortNewestFirst_def sorted_insertNewestFirst)

lemma sorted_wrt_distinct:
  "distinct xs \<Longrightarrow> sorted_wrt P xs \<Longrightarrow> sorted_wrt (\<lambda>a b. P a b \<and> a \<noteq> b) xs"
  by (induction xs) auto

subsection \<open>Sorting the groups\<close>

lemma compareGroups_Less:
  "members g \<noteq> [] \<Longrightarrow> members h \<noteq> [] \<Longrightarrow>
   compareGroups g h = compareVersions (hd (members g)) (hd (members h))"
  by (cases "members g"; cases "members h") (simp_all add: compareGroups_def)

lemma mset_insertGroup: "mset (insertGroup g hs) = add_mset g (mset hs)"
  by (induction hs) auto

lemma mset_sortGroups: "mset (sortGroups gs) = mset gs"
  by (induction gs) (simp_all add: sortGroups_def mset_insertGroup)

lemma set_sortGroups: "set (sortGroups gs) = set gs"
  using mset_sortGroups [of gs] by (metis set_mset_mset)

lemma set_insertGroup: "set (insertGroup g hs) = insert g (set hs)"
  using mset_insertGroup [of g hs] by (metis set_mset_mset set_mset_add_mset_insert)

lemma sorted_insertGroup:
  assumes "members g \<noteq> []" and "\<forall>h \<in> set hs. members h \<noteq> []"
    and "sorted_wrt (\<lambda>a b. newestPrecedence b \<le> newestPrecedence a) hs"
  shows "sorted_wrt (\<lambda>a b. newestPrecedence b \<le> newestPrecedence a) (insertGroup g hs)"
  using assms(2,3)
proof (induction hs)
  case Nil
  then show ?case by simp
next
  case (Cons h hs)
  then have h: "members h \<noteq> []" by simp
  have c: "compareGroups g h = compareVersions (hd (members g)) (hd (members h))"
    using assms(1) h by (rule compareGroups_Less)
  show ?case
  proof (cases "compareGroups g h = Less")
    case True
    then have "newestPrecedence g \<le> newestPrecedence h"
      unfolding c by (auto simp: compareVersions_def newestPrecedence_def split: if_splits)
    with Cons True show ?thesis by (auto simp: set_insertGroup)
  next
    case False
    then have "newestPrecedence h \<le> newestPrecedence g"
      unfolding c by (simp add: compare_not_Less newestPrecedence_def)
    with Cons False show ?thesis by auto
  qed
qed

lemma sorted_sortGroups:
  "\<forall>g \<in> set gs. members g \<noteq> [] \<Longrightarrow>
   sorted_wrt (\<lambda>a b. newestPrecedence b \<le> newestPrecedence a) (sortGroups gs)"
proof (induction gs)
  case Nil
  then show ?case by (simp add: sortGroups_def)
next
  case (Cons g gs)
  then have "sorted_wrt (\<lambda>a b. newestPrecedence b \<le> newestPrecedence a) (sortGroups gs)" by simp
  moreover have "\<forall>h \<in> set (sortGroups gs). members h \<noteq> []"
    using Cons.prems by (simp add: set_sortGroups)
  moreover have "members g \<noteq> []" using Cons.prems by simp
  ultimately have "sorted_wrt (\<lambda>a b. newestPrecedence b \<le> newestPrecedence a)
      (insertGroup g (sortGroups gs))"
    by (intro sorted_insertGroup)
  then show ?case by (simp add: sortGroups_def)
qed

subsection \<open>The groups\<close>

lemma groupVersions_mk:
  "groupVersions vs = sortGroups (map (mkGroup vs) (remdups (map getVersionGroupKey vs)))"
  by (simp add: groupVersions_def mkGroup_def [abs_def])

lemma set_groupVersions: "set (groupVersions vs) = mkGroup vs ` getVersionGroupKey ` set vs"
  by (simp add: groupVersions_mk set_sortGroups)

lemma members_mkGroup: "set (members (mkGroup vs k)) = {v \<in> set vs. getVersionGroupKey v = k}"
  by (simp add: mkGroup_def set_sortNewestFirst)

lemma groupKey_mkGroup: "groupKey (mkGroup vs k) = k"
  by (simp add: mkGroup_def)

lemma mset_filter_disjoint:
  "(\<And>x. \<not> (P x \<and> Q x)) \<Longrightarrow>
   mset (filter P vs) + mset (filter Q vs) = mset (filter (\<lambda>x. P x \<or> Q x) vs)"
  by (induction vs) auto

lemma mset_groups_filter:
  "distinct ks \<Longrightarrow>
   mset (concat (map (\<lambda>k. members (mkGroup vs k)) ks))
     = mset (filter (\<lambda>v. getVersionGroupKey v \<in> set ks) vs)"
proof (induction ks)
  case Nil
  then show ?case by simp
next
  case (Cons k ks)
  have "mset (concat (map (\<lambda>k. members (mkGroup vs k)) (k # ks)))
      = mset (filter (\<lambda>v. getVersionGroupKey v = k) vs)
        + mset (filter (\<lambda>v. getVersionGroupKey v \<in> set ks) vs)"
    using Cons by (simp add: mkGroup_def mset_sortNewestFirst)
  also have "\<dots> = mset (filter (\<lambda>v. getVersionGroupKey v = k \<or> getVersionGroupKey v \<in> set ks) vs)"
    using Cons.prems by (intro mset_filter_disjoint) auto
  finally show ?case by simp
qed

lemma mset_concat_perm:
  "mset xs = mset ys \<Longrightarrow> mset (concat (map f xs)) = mset (concat (map f ys))"
proof -
  assume a: "mset xs = mset ys"
  have "mset (concat (map f zs)) = (\<Sum>z \<in># mset zs. mset (f z))" for zs
    by (induction zs) simp_all
  then show ?thesis using a by simp
qed

lemma mset_groupVersions: "mset (concat (map members (groupVersions vs))) = mset vs"
proof -
  let ?ks = "remdups (map getVersionGroupKey vs)"
  have "mset (concat (map members (groupVersions vs)))
      = mset (concat (map members (map (mkGroup vs) ?ks)))"
    unfolding groupVersions_mk by (rule mset_concat_perm) (rule mset_sortGroups)
  also have "\<dots> = mset (concat (map (\<lambda>k. members (mkGroup vs k)) ?ks))"
    by (simp add: comp_def)
  also have "\<dots> = mset (filter (\<lambda>v. getVersionGroupKey v \<in> set ?ks) vs)"
    by (rule mset_groups_filter) simp
  also have "\<dots> = mset vs" by simp
  finally show ?thesis .
qed

lemma distinct_group_keys: "distinct (map groupKey (groupVersions vs))"
proof -
  let ?ks = "remdups (map getVersionGroupKey vs)"
  have "mset (map groupKey (groupVersions vs)) = mset ?ks"
    by (simp add: groupVersions_mk mset_sortGroups multiset.map_comp comp_def groupKey_mkGroup)
  then have "distinct (map groupKey (groupVersions vs)) = distinct ?ks"
    by (rule mset_eq_imp_distinct_iff)
  then show ?thesis by simp
qed

lemma group_facts:
  assumes "g \<in> set (groupVersions vs)"
  shows "members g \<noteq> []"
    and "set (members g) = {v \<in> set vs. getVersionGroupKey v = groupKey g}"
    and "sorted_wrt (\<lambda>a b. precedence b \<le> precedence a) (members g)"
    and "distinct vs \<Longrightarrow> distinct (members g)"
proof -
  from assms obtain v where v: "v \<in> set vs" "g = mkGroup vs (getVersionGroupKey v)"
    by (auto simp: set_groupVersions)
  show 2: "set (members g) = {v \<in> set vs. getVersionGroupKey v = groupKey g}"
    by (simp add: v(2) members_mkGroup groupKey_mkGroup)
  have "v \<in> set (members g)" using v by (simp add: members_mkGroup)
  then show "members g \<noteq> []" by auto
  show "sorted_wrt (\<lambda>a b. precedence b \<le> precedence a) (members g)"
    by (simp add: v(2) mkGroup_def sorted_sortNewestFirst)
  show "distinct (members g)" if "distinct vs"
  proof -
    have "mset (members g) = mset (filter (\<lambda>u. getVersionGroupKey u = getVersionGroupKey v) vs)"
      by (simp add: v(2) mkGroup_def mset_sortNewestFirst)
    then have "distinct (members g) = distinct (filter (\<lambda>u. getVersionGroupKey u = getVersionGroupKey v) vs)"
      by (rule mset_eq_imp_distinct_iff)
    with that show ?thesis by simp
  qed
qed

lemma exactly_one_group:
  assumes "v \<in> set vs"
  shows "\<exists>!g. g \<in> set (groupVersions vs) \<and> v \<in> set (members g)"
proof
  show "mkGroup vs (getVersionGroupKey v) \<in> set (groupVersions vs)
        \<and> v \<in> set (members (mkGroup vs (getVersionGroupKey v)))"
    using assms by (simp add: set_groupVersions members_mkGroup)
next
  fix g assume g: "g \<in> set (groupVersions vs) \<and> v \<in> set (members g)"
  then obtain k where k: "g = mkGroup vs k" by (auto simp: set_groupVersions)
  with g have "getVersionGroupKey v = k" by (simp add: members_mkGroup)
  with k show "g = mkGroup vs (getVersionGroupKey v)" by simp
qed

lemma groups_strictly_sorted:
  "sorted_wrt (\<lambda>g h. compareVersions (hd (members g)) (hd (members h)) = Greater) (groupVersions vs)"
proof -
  let ?gs = "groupVersions vs"
  have ne: "\<forall>g \<in> set (map (mkGroup vs) (remdups (map getVersionGroupKey vs))). members g \<noteq> []"
    using group_facts(1) [of _ vs] by (simp add: groupVersions_mk set_sortGroups)
  have s: "sorted_wrt (\<lambda>a b. newestPrecedence b \<le> newestPrecedence a) ?gs"
    unfolding groupVersions_mk using ne by (rule sorted_sortGroups)
  have d: "distinct ?gs" using distinct_group_keys [of vs] by (rule distinct_map [THEN iffD1, THEN conjunct1])
  from sorted_wrt_distinct [OF d s]
  have "sorted_wrt (\<lambda>a b. newestPrecedence b \<le> newestPrecedence a \<and> a \<noteq> b) ?gs" .
  then show ?thesis
  proof (rule sorted_wrt_mono_rel [rotated])
    fix g h assume g: "g \<in> set ?gs" and h: "h \<in> set ?gs"
      and le: "newestPrecedence h \<le> newestPrecedence g \<and> g \<noteq> h"
    from g h obtain k k' where k: "g = mkGroup vs k" "h = mkGroup vs k'"
      by (auto simp: set_groupVersions)
    with le have kk: "groupKey g \<noteq> groupKey h" by (auto simp: groupKey_mkGroup)
    have "hd (members g) \<in> set (members g)" "hd (members h) \<in> set (members h)"
      using group_facts(1) g h by simp_all
    then have "getVersionGroupKey (hd (members g)) = groupKey g"
      "getVersionGroupKey (hd (members h)) = groupKey h"
      using group_facts(2) g h by auto
    with kk have "precedence (hd (members g)) \<noteq> precedence (hd (members h))"
      using same_precedence_same_key by metis
    with le show "compareVersions (hd (members g)) (hd (members h)) = Greater"
      by (simp add: compare_Greater newestPrecedence_def less_le)
  qed
qed

lemma key_rule:
  "getVersionGroupKey v =
     (if 1 \<le> major (parseVersion v) then showNat (major (parseVersion v))
      else ''0.'' @ showNat (minor (parseVersion v)))"
  by (simp add: getVersionGroupKey_def Let_def)

lemma members_strict:
  assumes "g \<in> set (groupVersions vs)" and "distinct vs"
    and "\<forall>a \<in> set vs. \<forall>b \<in> set vs. a \<noteq> b \<longrightarrow> compareVersions a b \<noteq> Equal"
  shows "sorted_wrt (\<lambda>a b. compareVersions a b = Greater) (members g)"
proof -
  have "sorted_wrt (\<lambda>a b. precedence b \<le> precedence a \<and> a \<noteq> b) (members g)"
    using group_facts(3,4) [OF assms(1)] assms(2) by (intro sorted_wrt_distinct) simp_all
  then show ?thesis
  proof (rule sorted_wrt_mono_rel [rotated])
    fix a b assume a: "a \<in> set (members g)" and b: "b \<in> set (members g)"
      and le: "precedence b \<le> precedence a \<and> a \<noteq> b"
    from a b have "a \<in> set vs" "b \<in> set vs" using group_facts(2) [OF assms(1)] by auto
    with assms(3) le have "precedence a \<noteq> precedence b" by (auto simp: compare_Equal)
    with le show "compareVersions a b = Greater" by (simp add: compare_Greater less_le)
  qed
qed

text \<open>
  Claim C2, as amended. For every list of versions (the keys of a version map), the
  grouping output is a full partition: every input version appears in exactly one group,
  and the groups together hold exactly the input versions; group keys are pairwise
  different; a version with major \<open>\<ge> 1\<close> has its major as group key, a version with
  major \<open>0\<close> has \<open>0.<minor>\<close>; each group is non-empty and sorted newest-first by the
  comparator (no member is older than a later one), strictly so when the input versions
  are distinct and no two of them compare equal; and the groups are sorted strictly by
  their newest member, descending. The versions 0.9.0, 0.9.3, 0.10.0, 0.10.1 form exactly
  the two groups \<open>0.10\<close> and \<open>0.9\<close>.
\<close>

theorem groupVersions_partition:
  "(\<forall>v \<in> set vs. \<exists>!g. g \<in> set (groupVersions vs) \<and> v \<in> set (members g))
   \<and> mset (concat (map members (groupVersions vs))) = mset vs
   \<and> distinct (map groupKey (groupVersions vs))
   \<and> (\<forall>g \<in> set (groupVersions vs).
        members g \<noteq> []
        \<and> (\<forall>v \<in> set (members g).
              groupKey g = (if 1 \<le> major (parseVersion v) then showNat (major (parseVersion v))
                            else ''0.'' @ showNat (minor (parseVersion v))))
        \<and> sorted_wrt (\<lambda>a b. compareVersions a b \<noteq> Less) (members g)
        \<and> (distinct vs \<and> (\<forall>a \<in> set vs. \<forall>b \<in> set vs. a \<noteq> b \<longrightarrow> compareVersions a b \<noteq> Equal)
             \<longrightarrow> sorted_wrt (\<lambda>a b. compareVersions a b = Greater) (members g)))
   \<and> sorted_wrt (\<lambda>g h. compareVersions (hd (members g)) (hd (members h)) = Greater)
        (groupVersions vs)
   \<and> groupVersions [''0.9.0'', ''0.9.3'', ''0.10.0'', ''0.10.1'']
       = [\<lparr>groupKey = ''0.10'', members = [''0.10.1'', ''0.10.0'']\<rparr>,
          \<lparr>groupKey = ''0.9'', members = [''0.9.3'', ''0.9.0'']\<rparr>]"
proof -
  have 1: "\<forall>v \<in> set vs. \<exists>!g. g \<in> set (groupVersions vs) \<and> v \<in> set (members g)"
    using exactly_one_group by blast
  have 4: "members g \<noteq> []
        \<and> (\<forall>v \<in> set (members g).
              groupKey g = (if 1 \<le> major (parseVersion v) then showNat (major (parseVersion v))
                            else ''0.'' @ showNat (minor (parseVersion v))))
        \<and> sorted_wrt (\<lambda>a b. compareVersions a b \<noteq> Less) (members g)
        \<and> (distinct vs \<and> (\<forall>a \<in> set vs. \<forall>b \<in> set vs. a \<noteq> b \<longrightarrow> compareVersions a b \<noteq> Equal)
             \<longrightarrow> sorted_wrt (\<lambda>a b. compareVersions a b = Greater) (members g))"
    if g: "g \<in> set (groupVersions vs)" for g
  proof (intro conjI impI ballI)
    show "members g \<noteq> []" using g by (rule group_facts(1))
    show "sorted_wrt (\<lambda>a b. compareVersions a b \<noteq> Less) (members g)"
      using group_facts(3) [OF g] by (simp add: compare_not_Less)
    show "groupKey g = (if 1 \<le> major (parseVersion v) then showNat (major (parseVersion v))
                            else ''0.'' @ showNat (minor (parseVersion v)))"
      if "v \<in> set (members g)" for v
    proof -
      from that have "getVersionGroupKey v = groupKey g" using group_facts(2) [OF g] by simp
      then show ?thesis using key_rule [of v] by simp
    qed
    show "sorted_wrt (\<lambda>a b. compareVersions a b = Greater) (members g)"
      if "distinct vs \<and> (\<forall>a \<in> set vs. \<forall>b \<in> set vs. a \<noteq> b \<longrightarrow> compareVersions a b \<noteq> Equal)"
      using members_strict [OF g] that by blast
  qed
  have 6: "groupVersions [''0.9.0'', ''0.9.3'', ''0.10.0'', ''0.10.1'']
       = [\<lparr>groupKey = ''0.10'', members = [''0.10.1'', ''0.10.0'']\<rparr>,
          \<lparr>groupKey = ''0.9'', members = [''0.9.3'', ''0.9.0'']\<rparr>]"
    by code_simp
  show ?thesis
    using 1 mset_groupVersions distinct_group_keys 4 groups_strictly_sorted 6
    by (intro conjI ballI) blast+
qed

theorem groupVersions_partition_witness:
  "groupVersions [''1.0.0-beta.2'', ''0.9.3'', ''1.0.0'', ''2.1.0'', ''0.10.0'', ''1.0.0-beta.11'']
     = [\<lparr>groupKey = ''2'', members = [''2.1.0'']\<rparr>,
        \<lparr>groupKey = ''1'', members = [''1.0.0'', ''1.0.0-beta.11'', ''1.0.0-beta.2'']\<rparr>,
        \<lparr>groupKey = ''0.10'', members = [''0.10.0'']\<rparr>,
        \<lparr>groupKey = ''0.9'', members = [''0.9.3'']\<rparr>]
   \<and> sorted_wrt (\<lambda>a b. compareVersions a b = Greater) [''1.0.0'', ''1.0.0-beta.11'', ''1.0.0-beta.2'']"
proof -
  let ?vs = "[''1.0.0-beta.2'', ''0.9.3'', ''1.0.0'', ''2.1.0'', ''0.10.0'', ''1.0.0-beta.11'']"
  let ?g = "\<lparr>groupKey = ''1'', members = [''1.0.0'', ''1.0.0-beta.11'', ''1.0.0-beta.2'']\<rparr>"
  have e: "groupVersions ?vs
     = [\<lparr>groupKey = ''2'', members = [''2.1.0'']\<rparr>, ?g,
        \<lparr>groupKey = ''0.10'', members = [''0.10.0'']\<rparr>,
        \<lparr>groupKey = ''0.9'', members = [''0.9.3'']\<rparr>]"
    by code_simp
  have h: "distinct ?vs \<and> (\<forall>a \<in> set ?vs. \<forall>b \<in> set ?vs. a \<noteq> b \<longrightarrow> compareVersions a b \<noteq> Equal)"
    by code_simp
  have g: "?g \<in> set (groupVersions ?vs)" unfolding e by simp
  from groupVersions_partition [of ?vs] g h
  have "sorted_wrt (\<lambda>a b. compareVersions a b = Greater) (members ?g)" by blast
  then show ?thesis using e by simp
qed

text \<open>
  Two keys of a version map that differ in build metadata only compare equal, so their
  group is sorted newest-first but not strictly.
\<close>

theorem groupVersions_ties_counterexample:
  "groupVersions [''1.0.0+a'', ''1.0.0+b'']
     = [\<lparr>groupKey = ''1'', members = [''1.0.0+a'', ''1.0.0+b'']\<rparr>]
   \<and> compareVersions ''1.0.0+a'' ''1.0.0+b'' = Equal
   \<and> \<not> sorted_wrt (\<lambda>a b. compareVersions a b = Greater) [''1.0.0+a'', ''1.0.0+b'']"
  by code_simp

end
